theory Spec2Isabelle
  imports Main "HOL-Library.Sublist"
begin

section \<open>Strings\<close>

text \<open>
  A JavaScript string is modelled as a \<^typ>\<open>string\<close>: the list of its code units, each in
  the range U+0000 .. U+00FF.
\<close>

abbreviation BS :: char where
  "BS \<equiv> CHR 0x5C"

definition isSpace :: "char \<Rightarrow> bool" where
  "isSpace c = (c \<in> set [CHR 0x09, CHR 0x0A, CHR 0x0B, CHR 0x0C, CHR 0x0D, CHR 0x20, CHR 0xA0])"

definition isDigit :: "char \<Rightarrow> bool" where
  "isDigit c = (c \<in> set ''0123456789'')"

definition isAlpha :: "char \<Rightarrow> bool" where
  "isAlpha c = (c \<in> set ''abcdefghijklmnopqrstuvwxyzABCDEFGHIJKLMNOPQRSTUVWXYZ'')"

definition isHexDigit :: "char \<Rightarrow> bool" where
  "isHexDigit c = (c \<in> set ''0123456789abcdefABCDEF'')"

definition isLineTerminator :: "char \<Rightarrow> bool" where
  "isLineTerminator c = (c = CHR 0x0A \<or> c = CHR 0x0D)"

fun str_includes :: "string \<Rightarrow> string \<Rightarrow> bool" where
  "str_includes [] t = (t = [])"
| "str_includes (c # s) t = (prefix t (c # s) \<or> str_includes s t)"

section \<open>Regular expressions\<close>

datatype cclass = AnyChar | Dot | Space | Digit | Alpha | HexDigit | Not char | Only char | NoCase char

fun toLowerAscii :: "char \<Rightarrow> char" where
  "toLowerAscii c = (case map_of (zip ''ABCDEFGHIJKLMNOPQRSTUVWXYZ'' ''abcdefghijklmnopqrstuvwxyz'') c of
       Some l \<Rightarrow> l | None \<Rightarrow> c)"

fun inClass :: "cclass \<Rightarrow> char \<Rightarrow> bool" where
  "inClass AnyChar c = True"
| "inClass Dot c = (\<not> isLineTerminator c)"
| "inClass Space c = isSpace c"
| "inClass Digit c = isDigit c"
| "inClass Alpha c = isAlpha c"
| "inClass HexDigit c = isHexDigit c"
| "inClass (Not x) c = (c \<noteq> x)"
| "inClass (Only x) c = (c = x)"
| "inClass (NoCase x) c = (toLowerAscii c = toLowerAscii x)"

datatype rx =
    Lit string
  | Rep bool nat "nat option" cclass
  | Open
  | Close
  | Alt "rx list" "rx list"
  | Ahead "rx list"
  | NotAfter char
  | Bos
  | Eos

fun rxSize :: "rx \<Rightarrow> nat" where
  "rxSize (Alt a b) = Suc (sum_list (map rxSize a) + sum_list (map rxSize b))"
| "rxSize (Ahead a) = Suc (sum_list (map rxSize a))"
| "rxSize r = 1"

fun lastOr :: "char option \<Rightarrow> string \<Rightarrow> char option" where
  "lastOr p [] = p"
| "lastOr p (c # s) = lastOr (Some c) s"

function rmatch :: "rx list \<Rightarrow> char option \<Rightarrow> string \<Rightarrow> string list \<Rightarrow> string list
    \<Rightarrow> (string list \<times> string) option" where
  "rmatch [] p s os cs = Some (cs, s)"
| "rmatch (Lit l # k) p s os cs =
     (if prefix l s then rmatch k (lastOr p l) (drop (length l) s) os cs else None)"
| "rmatch (Rep greedy mn mx c # k) p s os cs =
     (let more = (case s of [] \<Rightarrow> None
                  | x # xs \<Rightarrow> if inClass c x
                      then rmatch (Rep greedy (mn - 1) (map_option (\<lambda>m. m - 1) mx) c # k) (Some x) xs os cs
                      else None)
      in if 0 < mn then more
         else if mx = Some 0 then rmatch k p s os cs
         else if greedy then (case more of Some r \<Rightarrow> Some r | None \<Rightarrow> rmatch k p s os cs)
         else (case rmatch k p s os cs of Some r \<Rightarrow> Some r | None \<Rightarrow> more))"
| "rmatch (Open # k) p s os cs = rmatch k p s (s # os) cs"
| "rmatch (Close # k) p s os cs =
     (case os of [] \<Rightarrow> rmatch k p s os cs
      | t # os' \<Rightarrow> rmatch k p s os' (cs @ [take (length t - length s) t]))"
| "rmatch (Alt a b # k) p s os cs =
     (case rmatch (a @ k) p s os cs of Some r \<Rightarrow> Some r | None \<Rightarrow> rmatch (b @ k) p s os cs)"
| "rmatch (Ahead a # k) p s os cs =
     (case rmatch a p s os cs of None \<Rightarrow> None | Some r \<Rightarrow> rmatch k p s os cs)"
| "rmatch (NotAfter x # k) p s os cs = (if p = Some x then None else rmatch k p s os cs)"
| "rmatch (Bos # k) p s os cs = (if p = None then rmatch k p s os cs else None)"
| "rmatch (Eos # k) p s os cs = (if s = [] then rmatch k p s os cs else None)"
  by pat_completeness auto
termination
  by (relation "measures [\<lambda>(rs, p, s, os, cs). sum_list (map rxSize rs), \<lambda>(rs, p, s, os, cs). length s]") auto


section \<open>String.prototype.replace, match, split, trim\<close>

datatype seg = Keep char | Hit "string list"

function scan :: "rx list \<Rightarrow> char option \<Rightarrow> string \<Rightarrow> seg list" where
  "scan r p [] = (case rmatch r p [] [] [] of Some (cs, rest) \<Rightarrow> [Hit cs] | None \<Rightarrow> [])"
| "scan r p (c # s) =
     (case rmatch r p (c # s) [] [] of
        None \<Rightarrow> Keep c # scan r (Some c) s
      | Some (cs, rest) \<Rightarrow>
          if length rest \<le> length s
          then Hit cs # scan r (lastOr p (take (Suc (length s) - length rest) (c # s))) rest
          else Hit cs # Keep c # scan r (Some c) s)"
  by pat_completeness auto
termination
  by (relation "measure (\<lambda>(r, p, s). length s)") auto

definition grp :: "string list \<Rightarrow> nat \<Rightarrow> string" where
  "grp cs i = (if i < length cs then cs ! i else [])"

fun emit :: "(string list \<Rightarrow> string) \<Rightarrow> seg \<Rightarrow> string" where
  "emit f (Keep c) = [c]"
| "emit f (Hit cs) = f cs"

definition replaceAll :: "rx list \<Rightarrow> (string list \<Rightarrow> string) \<Rightarrow> string \<Rightarrow> string" where
  "replaceAll r f s = concat (map (emit f) (scan r None s))"

fun emitSt :: "(string list \<Rightarrow> 'st \<Rightarrow> string \<times> 'st) \<Rightarrow> seg list \<Rightarrow> 'st \<Rightarrow> string \<times> 'st" where
  "emitSt f [] st = ([], st)"
| "emitSt f (Keep c # gs) st = (case emitSt f gs st of (out, st') \<Rightarrow> (c # out, st'))"
| "emitSt f (Hit cs # gs) st =
     (case f cs st of (x, st1) \<Rightarrow> (case emitSt f gs st1 of (out, st2) \<Rightarrow> (x @ out, st2)))"

definition replaceAllSt ::
    "rx list \<Rightarrow> (string list \<Rightarrow> 'st \<Rightarrow> string \<times> 'st) \<Rightarrow> string \<times> 'st \<Rightarrow> string \<times> 'st" where
  "replaceAllSt r f x = emitSt f (scan r None (fst x)) (snd x)"

fun replaceFirstFrom :: "rx list \<Rightarrow> (string list \<Rightarrow> string) \<Rightarrow> char option \<Rightarrow> string \<Rightarrow> string" where
  "replaceFirstFrom r f p [] = (case rmatch r p [] [] [] of Some (cs, rest) \<Rightarrow> f cs | None \<Rightarrow> [])"
| "replaceFirstFrom r f p (c # s) =
     (case rmatch r p (c # s) [] [] of
        Some (cs, rest) \<Rightarrow> f cs @ rest
      | None \<Rightarrow> c # replaceFirstFrom r f (Some c) s)"

definition replaceFirst :: "rx list \<Rightarrow> (string list \<Rightarrow> string) \<Rightarrow> string \<Rightarrow> string" where
  "replaceFirst r f s = replaceFirstFrom r f None s"

fun matchFrom :: "rx list \<Rightarrow> char option \<Rightarrow> string \<Rightarrow> string list option" where
  "matchFrom r p [] = map_option fst (rmatch r p [] [] [])"
| "matchFrom r p (c # s) =
     (case rmatch r p (c # s) [] [] of
        Some (cs, rest) \<Rightarrow> Some cs
      | None \<Rightarrow> matchFrom r (Some c) s)"

definition matchRx :: "rx list \<Rightarrow> string \<Rightarrow> string list option" where
  "matchRx r s = matchFrom r None s"

function splitGo :: "string \<Rightarrow> string \<Rightarrow> string \<Rightarrow> string list" where
  "splitGo sep acc [] = [rev acc]"
| "splitGo sep acc (c # s) =
     (if sep \<noteq> [] \<and> prefix sep (c # s)
      then rev acc # splitGo sep [] (drop (length sep) (c # s))
      else splitGo sep (c # acc) s)"
  by pat_completeness auto
termination
  by (relation "measure (\<lambda>(sep, acc, s). length s)") (auto simp: neq_Nil_conv)

definition split :: "string \<Rightarrow> string \<Rightarrow> string list" where
  "split s sep = (if sep = [] then map (\<lambda>c. [c]) s else splitGo sep [] s)"

fun join :: "string list \<Rightarrow> string \<Rightarrow> string" where
  "join [] sep = []"
| "join [x] sep = x"
| "join (x # y # xs) sep = x @ sep @ join (y # xs) sep"

definition trim :: "string \<Rightarrow> string" where
  "trim s = rev (dropWhile isSpace (rev (dropWhile isSpace s)))"

section \<open>Rule tables\<close>

text \<open>
  The source chains calls of \<^verbatim>\<open>replace\<close> with a global pattern. A rule is one link of
  such a chain: the pattern and the function from the captured groups to the replacement.
\<close>

type_synonym rule = "rx list \<times> (string list \<Rightarrow> string)"

definition applyRules :: "rule list \<Rightarrow> string \<Rightarrow> string" where
  "applyRules rules text = foldl (\<lambda>y (r, f). replaceAll r f y) text rules"

fun literals :: "rx list \<Rightarrow> string list" where
  "literals [] = []"
| "literals (Lit l # k) = l # literals k"
| "literals (x # k) = literals k"

section \<open>Escaper\<close>

definition escapeRules :: "rule list" where
  "escapeRules =
     [([Lit [BS]], \<lambda>_. BS # ''textbackslash{}''),
      ([Lit ''{''], \<lambda>_. [BS, CHR ''{'']),
      ([Lit ''}''], \<lambda>_. [BS, CHR ''}'']),
      ([Lit ''$''], \<lambda>_. [BS, CHR ''$'']),
      ([Lit ''&''], \<lambda>_. [BS, CHR ''&'']),
      ([Lit ''#''], \<lambda>_. [BS, CHR ''#'']),
      ([Lit ''%''], \<lambda>_. [BS, CHR ''%'']),
      ([Lit ''_''], \<lambda>_. [BS, CHR ''_'']),
      ([Lit ''^''], \<lambda>_. BS # ''textasciicircum{}''),
      ([Lit ''~''], \<lambda>_. BS # ''textasciitilde{}'')]"

definition escapeLatex :: "string \<Rightarrow> string" where
  "escapeLatex text = applyRules escapeRules text"

definition unescapeRules :: "rule list" where
  "unescapeRules =
     [([Lit (BS # ''textbackslash{}'')], \<lambda>_. [BS]),
      ([Lit [BS, CHR ''{'']], \<lambda>_. ''{''),
      ([Lit [BS, CHR ''}'']], \<lambda>_. ''}''),
      ([Lit [BS, CHR ''$'']], \<lambda>_. ''$''),
      ([Lit [BS, CHR ''&'']], \<lambda>_. ''&''),
      ([Lit [BS, CHR ''#'']], \<lambda>_. ''#''),
      ([Lit [BS, CHR ''%'']], \<lambda>_. ''%''),
      ([Lit [BS, CHR ''_'']], \<lambda>_. ''_''),
      ([Lit (BS # ''textasciicircum{}'')], \<lambda>_. ''^''),
      ([Lit (BS # ''textasciitilde{}'')], \<lambda>_. ''~'')]"

definition unescapeLatex :: "string \<Rightarrow> string" where
  "unescapeLatex text = applyRules unescapeRules text"

section \<open>Numbers as text\<close>

definition digitChar :: "nat \<Rightarrow> char" where
  "digitChar n = (if n < 16 then ''0123456789abcdef'' ! n else CHR ''?'')"

definition digitVal :: "char \<Rightarrow> nat" where
  "digitVal c =
     (case map_of (zip ''0123456789abcdef'' [0, 1, 2, 3, 4, 5, 6, 7, 8, 9, 10, 11, 12, 13, 14, 15])
        (toLowerAscii c) of Some v \<Rightarrow> v | None \<Rightarrow> 0)"

function natToString :: "nat \<Rightarrow> nat \<Rightarrow> string" where
  "natToString b n =
     (if b < 2 \<or> n < b then [digitChar n] else natToString b (n div b) @ [digitChar (n mod b)])"
  by pat_completeness auto
termination
  by (relation "measure (\<lambda>(b, n). n)") auto

declare natToString.simps [simp del]

definition readNat :: "nat \<Rightarrow> string \<Rightarrow> nat" where
  "readNat b ds = foldl (\<lambda>a c. b * a + digitVal c) 0 ds"

section \<open>Protected-block store\<close>

definition protect :: "string \<Rightarrow> string list \<Rightarrow> string \<times> string list" where
  "protect str protectedBlocks =
     (''__PROTECTED_BLOCK_'' @ natToString 10 (length (protectedBlocks @ [str]) - 1) @ ''__'',
      protectedBlocks @ [str])"

definition blockAt :: "string list \<Rightarrow> string \<Rightarrow> string" where
  "blockAt protectedBlocks i =
     (if i = natToString 10 (readNat 10 i) \<and> readNat 10 i < length protectedBlocks
      then protectedBlocks ! readNat 10 i else ''undefined'')"

section \<open>Math adapter\<close>

type_synonym katex = "(string \<Rightarrow> bool \<Rightarrow> string option) option"

definition renderMath :: "katex \<Rightarrow> string \<Rightarrow> bool \<Rightarrow> string" where
  \<open>renderMath katex math displayMode =
     (case katex of
        Some renderToString \<Rightarrow>
          (case renderToString math displayMode of
             Some html \<Rightarrow> html
           | None \<Rightarrow> ''<span class="text-red-500">Error</span>'')
      | None \<Rightarrow>
          if displayMode then ''<div class="math-placeholder">'' @ BS # ''['' @ math @ BS # '']</div>''
          else ''<span class="math-placeholder">$'' @ math @ ''$</span>'')\<close>

section \<open>encodeURIComponent and decodeURIComponent\<close>

definition isUnreserved :: "char \<Rightarrow> bool" where
  \<open>isUnreserved c = (isAlpha c \<or> isDigit c \<or> c \<in> set ''-_.!~*\'()'')\<close>

definition upperHex :: "nat \<Rightarrow> char" where
  "upperHex n = (if n < 16 then ''0123456789ABCDEF'' ! n else CHR ''?'')"

definition pct :: "nat \<Rightarrow> string" where
  "pct b = [CHR ''%'', upperHex (b div 16), upperHex (b mod 16)]"

definition encodeChar :: "char \<Rightarrow> string" where
  "encodeChar c =
     (if isUnreserved c then [c]
      else if (of_char c :: nat) < 128 then pct (of_char c)
      else pct (192 + of_char c div 64) @ pct (128 + of_char c mod 64))"

definition encodeURIComponent :: "string \<Rightarrow> string" where
  "encodeURIComponent s = concat (map encodeChar s)"

datatype failure = URIError | BeyondLatin1

fun hexByte :: "string \<Rightarrow> (nat \<times> string) option" where
  "hexByte (p # h # l # s) =
     (if p = CHR ''%'' \<and> isHexDigit h \<and> isHexDigit l then Some (16 * digitVal h + digitVal l, s) else None)"
| "hexByte s = None"

fun continuation :: "string \<Rightarrow> (nat \<times> string) option" where
  "continuation s =
     (case hexByte s of
        Some (b, s') \<Rightarrow> if 128 \<le> b \<and> b < 192 then Some (b - 128, s') else None
      | None \<Rightarrow> None)"

fun continuations :: "nat \<Rightarrow> nat \<Rightarrow> string \<Rightarrow> (nat \<times> string) option" where
  "continuations 0 v s = Some (v, s)"
| "continuations (Suc n) v s =
     (case continuation s of
        Some (b, s') \<Rightarrow> continuations n (64 * v + b) s'
      | None \<Rightarrow> None)"

definition validCodePoint :: "nat \<Rightarrow> nat \<Rightarrow> bool" where
  "validCodePoint n v =
     (if n = 2 then 128 \<le> v
      else if n = 3 then 2048 \<le> v \<and> \<not> (55296 \<le> v \<and> v < 57344)
      else 65536 \<le> v \<and> v < 1114112)"

definition consChar :: "nat \<Rightarrow> failure + string \<Rightarrow> failure + string" where
  "consChar v r =
     (case r of
        Inl e \<Rightarrow> (if e = URIError \<or> v < 256 then Inl e else Inl BeyondLatin1)
      | Inr s \<Rightarrow> if v < 256 then Inr (char_of v # s) else Inl BeyondLatin1)"

function decodeURIComponent :: "string \<Rightarrow> failure + string" where
  "decodeURIComponent [] = Inr []"
| "decodeURIComponent (c # s) =
     (if c \<noteq> CHR ''%'' then consChar (of_char c) (decodeURIComponent s)
      else case hexByte (c # s) of
        None \<Rightarrow> Inl URIError
      | Some (b, s') \<Rightarrow>
          if b < 128 then consChar b (decodeURIComponent (drop 2 s))
          else let n = (if b < 192 then 1 else if b < 224 then 2 else if b < 240 then 3
                        else if b < 248 then 4 else 5)
               in if n = 1 \<or> n = 5 then Inl URIError
                  else case continuations (n - 1) (b mod 2 ^ (7 - n)) s' of
                    None \<Rightarrow> Inl URIError
                  | Some (v, s'') \<Rightarrow>
                      if validCodePoint n v
                      then consChar v (decodeURIComponent (drop (3 * n - 1) s))
                      else Inl URIError)"
  by pat_completeness auto
termination
  by (relation "measure length") auto


section \<open>Markup to tree: latexToHtml\<close>

definition lazyAny :: "rx list" where
  "lazyAny = [Open, Rep False 0 None AnyChar, Close]"

definition mathBlock :: "katex \<Rightarrow> string \<Rightarrow> string" where
  \<open>mathBlock katex m =
     ''<div class="math-block not-prose my-4 text-center cursor-pointer hover:bg-blue-50 transition-colors rounded py-2" contenteditable="false" data-latex="''
       @ encodeURIComponent m @ ''">'' @ renderMath katex m True @ ''</div>''\<close>

definition mathInline :: "katex \<Rightarrow> string \<Rightarrow> string" where
  \<open>mathInline katex m =
     ''<span class="math-inline not-prose px-1 cursor-pointer hover:bg-blue-50 transition-colors rounded" contenteditable="false" data-latex="''
       @ encodeURIComponent m @ ''">'' @ renderMath katex m False @ ''</span>''\<close>

definition checkboxList :: "string \<Rightarrow> string" where
  \<open>checkboxList i =
     ''<ul style="list-style-type: none;">''
       @ replaceFirst [Bos, Lit ''</li>''] (\<lambda>_. [])
           (join (split i (BS # ''item[$'' @ BS # ''square$]'')) ''</li><li><input type="checkbox" disabled> '')
       @ ''</li></ul>''\<close>

text \<open>The six protecting passes, in the order of the source; each replacement is handed to \<open>protect\<close>.\<close>

definition protectRules :: "katex \<Rightarrow> rule list" where
  \<open>protectRules katex =
     [([Lit (BS # ''begin{verbatim}'')] @ lazyAny @ [Lit (BS # ''end{verbatim}'')],
       \<lambda>g. ''<pre class="bg-slate-100 p-3 rounded font-mono text-sm my-4 border border-slate-200 overflow-x-auto" contenteditable="false">''
              @ grp g 0 @ ''</pre>''),
      ([Lit (BS # ''begin{itemize}''), Rep True 0 None Space, Lit (BS # ''item[$'' @ BS # ''square$]'')]
          @ lazyAny @ [Lit (BS # ''end{itemize}'')],
       \<lambda>g. checkboxList (grp g 0)),
      ([Lit (BS # ''['')] @ lazyAny @ [Lit (BS # '']'')], \<lambda>g. mathBlock katex (grp g 0)),
      ([Lit ''$$''] @ lazyAny @ [Lit ''$$''], \<lambda>g. mathBlock katex (grp g 0)),
      ([NotAfter BS, Lit ''$'', Open, Rep False 1 None (Not CHR ''$''), Close, Lit ''$''],
       \<lambda>g. mathInline katex (grp g 0)),
      ([Lit (BS # ''texttt{'')] @ lazyAny @ [Lit ''}''],
       \<lambda>g. ''<code class="bg-slate-100 px-1.5 py-0.5 rounded text-sm font-mono text-pink-600">''
              @ grp g 0 @ ''</code>'')]\<close>

definition protectBlocks :: "katex \<Rightarrow> string \<times> string list \<Rightarrow> string \<times> string list" where
  "protectBlocks katex x =
     foldl (\<lambda>y (r, f). replaceAllSt r (\<lambda>g. protect (f g)) y) x (protectRules katex)"

text \<open>The pass of \<open>protectBlocks\<close> with the rule at position \<open>i\<close>.\<close>

definition protectPass :: "katex \<Rightarrow> nat \<Rightarrow> string \<times> string list \<Rightarrow> string \<times> string list" where
  "protectPass katex i y =
     (case protectRules katex ! i of (r, f) \<Rightarrow> replaceAllSt r (\<lambda>g. protect (f g)) y)"

definition wrapRule :: "rx list \<Rightarrow> string \<Rightarrow> string \<Rightarrow> rule" where
  "wrapRule r opening closing = (r, \<lambda>g. opening @ grp g 0 @ closing)"

definition sizeRule :: "string \<Rightarrow> string \<Rightarrow> rule" where
  \<open>sizeRule cmd pt =
     wrapRule ([Lit (BS # cmd), Rep True 1 None Space] @ lazyAny
                 @ [Ahead [Alt [Lit [BS]] [Alt [Lit ''\<newline>''] [Eos]]]])
       (''<span style="font-size: '' @ pt @ ''">'') ''</span>''\<close>

definition colorArg :: "rx list" where
  "colorArg = [Open, Alt [Rep True 1 None Alpha] [Lit ''#'', Rep True 6 (Some 6) HexDigit], Close]"

definition listItems :: "string \<Rightarrow> string" where
  "listItems i =
     join (map (\<lambda>t. ''<li>'' @ trim t @ ''</li>'') (filter (\<lambda>t. trim t \<noteq> []) (split i (BS # ''item'')))) []"

definition formatRules :: "rule list" where
  \<open>formatRules =
     [wrapRule ([Lit (BS # ''section''), Rep True 0 None Space, Lit ''{''] @ lazyAny @ [Lit ''}'']) ''<h1>'' ''</h1>'',
      wrapRule ([Lit (BS # ''subsection''), Rep True 0 None Space, Lit ''{''] @ lazyAny @ [Lit ''}'']) ''<h2>'' ''</h2>'',
      wrapRule ([Lit (BS # ''subsubsection''), Rep True 0 None Space, Lit ''{''] @ lazyAny @ [Lit ''}'']) ''<h3>'' ''</h3>'',
      wrapRule ([Lit (BS # ''textbf{'')] @ lazyAny @ [Lit ''}'']) ''<b>'' ''</b>'',
      wrapRule ([Lit (BS # ''textit{'')] @ lazyAny @ [Lit ''}'']) ''<i>'' ''</i>'',
      wrapRule ([Lit (BS # ''underline{'')] @ lazyAny @ [Lit ''}'']) ''<u>'' ''</u>'',
      wrapRule ([Lit (BS # ''textsf{'')] @ lazyAny @ [Lit ''}'']) ''<span style="font-family: sans-serif">'' ''</span>'',
      sizeRule ''tiny'' ''5pt'',
      sizeRule ''scriptsize'' ''7pt'',
      sizeRule ''footnotesize'' ''8pt'',
      sizeRule ''small'' ''9pt'',
      sizeRule ''normalsize'' ''10pt'',
      sizeRule ''large'' ''12pt'',
      sizeRule ''Large'' ''14.4pt'',
      sizeRule ''LARGE'' ''17.28pt'',
      sizeRule ''huge'' ''20.74pt'',
      sizeRule ''Huge'' ''24.88pt'',
      ([Lit (BS # ''textcolor{'')] @ colorArg @ [Lit ''}{''] @ lazyAny @ [Lit ''}''],
       \<lambda>g. ''<span style="color: '' @ grp g 0 @ ''">'' @ grp g 1 @ ''</span>''),
      ([Lit (BS # ''colorbox{'')] @ colorArg @ [Lit ''}{''] @ lazyAny @ [Lit ''}''],
       \<lambda>g. ''<span style="background-color: '' @ grp g 0 @ ''">'' @ grp g 1 @ ''</span>''),
      wrapRule ([Lit (BS # ''begin{center}'')] @ lazyAny @ [Lit (BS # ''end{center}'')])
        ''<div style="text-align: center">'' ''</div>'',
      wrapRule ([Lit (BS # ''begin{flushright}'')] @ lazyAny @ [Lit (BS # ''end{flushright}'')])
        ''<div style="text-align: right">'' ''</div>'',
      wrapRule ([Lit (BS # ''begin{flushleft}'')] @ lazyAny @ [Lit (BS # ''end{flushleft}'')])
        ''<div style="text-align: left">'' ''</div>'',
      ([Lit (BS # ''href{'')] @ lazyAny @ [Lit ''}{''] @ lazyAny @ [Lit ''}''],
       \<lambda>g. ''<a href="'' @ grp g 0 @ ''">'' @ grp g 1 @ ''</a>''),
      wrapRule ([Lit (BS # ''includegraphics[''), Rep False 0 None Dot, Lit '']{''] @ lazyAny @ [Lit ''}''])
        ''<img src="'' ''" style="max-width:100%" />'',
      wrapRule ([Lit (BS # ''includegraphics{'')] @ lazyAny @ [Lit ''}''])
        ''<img src="'' ''" style="max-width:100%" />'',
      ([Lit (BS # ''begin{itemize}'')] @ lazyAny @ [Lit (BS # ''end{itemize}'')],
       \<lambda>g. ''<ul>'' @ listItems (grp g 0) @ ''</ul>''),
      ([Lit (BS # ''begin{enumerate}'')] @ lazyAny @ [Lit (BS # ''end{enumerate}'')],
       \<lambda>g. ''<ol>'' @ listItems (grp g 0) @ ''</ol>'')]\<close>

definition spacingRules :: "rule list" where
  "spacingRules = [([Lit [BS, BS]], \<lambda>_. ''<br/>''), ([Lit ''\<newline>''], \<lambda>_. '' '')]"

definition restorePattern :: "rx list" where
  "restorePattern = [Lit ''__PROTECTED_BLOCK_'', Open, Rep True 1 None Digit, Close, Lit ''__'']"

definition restoreBlocks :: "string list \<Rightarrow> string \<Rightarrow> string" where
  "restoreBlocks protectedBlocks content =
     replaceAll restorePattern (\<lambda>g. blockAt protectedBlocks (grp g 0)) content"

definition documentPattern :: "rx list" where
  "documentPattern = [Lit (BS # ''begin{document}'')] @ lazyAny @ [Lit (BS # ''end{document}'')]"

definition documentBody :: "string \<Rightarrow> string" where
  "documentBody latex =
     (case matchRx documentPattern latex of
        Some bodyMatch \<Rightarrow> grp bodyMatch 0
      | None \<Rightarrow> latex)"

definition latexToHtml :: "katex \<Rightarrow> string \<Rightarrow> string" where
  "latexToHtml katex latex =
     (if latex = [] then []
      else case protectBlocks katex (documentBody latex, []) of
        (content, protectedBlocks) \<Rightarrow>
          restoreBlocks protectedBlocks
            (unescapeLatex (applyRules spacingRules (applyRules formatRules content))))"

text \<open>
  A pattern is blocked on a text when one of its literal parts does not occur in the text,
  so that it cannot match anywhere. A text is inert when every pattern of the forward
  pipeline is blocked on it.
\<close>

definition blocked :: "string \<Rightarrow> rx list \<Rightarrow> bool" where
  "blocked s r = list_ex (\<lambda>l. \<not> str_includes s l) (literals r)"

definition forwardPatterns :: "rx list list" where
  "forwardPatterns =
     documentPattern # map fst (protectRules None) @ map fst formatRules @ map fst spacingRules
       @ map fst unescapeRules @ [restorePattern]"

definition inert :: "string \<Rightarrow> bool" where
  "inert s = list_all (blocked s) forwardPatterns"

section \<open>The rendered tree\<close>

record style =
  color :: string
  backgroundColor :: string
  textAlign :: string
  fontSize :: string
  fontFamily :: string

datatype node =
    TextNode string
  | Element (tagName: string) (attributes: "(string \<times> string) list") (styleOf: style)
      (valueOf: string) (childNodes: "node list")
  | OtherNode

definition noStyle :: style where
  "noStyle = \<lparr>color = [], backgroundColor = [], textAlign = [], fontSize = [], fontFamily = []\<rparr>"

fun textContent :: "node \<Rightarrow> string" where
  "textContent (TextNode t) = t"
| "textContent (Element tag attrs st v cs) = concat (map textContent cs)"
| "textContent OtherNode = []"

fun descendants :: "node \<Rightarrow> node list" where
  "descendants (Element tag attrs st v cs) = concat (map (\<lambda>c. c # descendants c) cs)"
| "descendants n = []"

definition toLowerCase :: "string \<Rightarrow> string" where
  "toLowerCase s = map (\<lambda>c. if (192 \<le> (of_char c :: nat) \<and> (of_char c :: nat) \<le> 222 \<and> c \<noteq> CHR 0xD7)
                               then char_of ((of_char c :: nat) + 32) else toLowerAscii c) s"

fun getAttribute :: "node \<Rightarrow> string \<Rightarrow> string option" where
  "getAttribute (Element tag attrs st v cs) name = map_of attrs name"
| "getAttribute n name = None"

definition isAsciiWhitespace :: "char \<Rightarrow> bool" where
  "isAsciiWhitespace c = (c \<in> set [CHR 0x09, CHR 0x0A, CHR 0x0C, CHR 0x0D, CHR 0x20])"

fun tokens :: "string \<Rightarrow> string \<Rightarrow> string list" where
  "tokens acc [] = (if acc = [] then [] else [rev acc])"
| "tokens acc (c # s) =
     (if isAsciiWhitespace c then (if acc = [] then tokens [] s else rev acc # tokens [] s)
      else tokens (c # acc) s)"

definition classListContains :: "node \<Rightarrow> string \<Rightarrow> bool" where
  "classListContains n cls =
     (case getAttribute n ''class'' of Some v \<Rightarrow> cls \<in> set (tokens [] v) | None \<Rightarrow> False)"

fun isTag :: "string \<Rightarrow> node \<Rightarrow> bool" where
  "isTag name (Element tag attrs st v cs) = (toLowerCase tag = name)"
| "isTag name n = False"

definition isCheckboxInput :: "node \<Rightarrow> bool" where
  "isCheckboxInput n =
     (isTag ''input'' n \<and>
      (case getAttribute n ''type'' of Some t \<Rightarrow> map toLowerAscii t = ''checkbox'' | None \<Rightarrow> False))"

definition querySelector :: "(node \<Rightarrow> bool) \<Rightarrow> node \<Rightarrow> node option" where
  "querySelector sel n = find sel (descendants n)"

section \<open>Tree to markup: htmlToLatex\<close>

definition padStart2 :: "string \<Rightarrow> string" where
  "padStart2 s = replicate (2 - length s) CHR ''0'' @ s"

definition toHex :: "string \<Rightarrow> string" where
  "toHex n = padStart2 (natToString 16 (max 0 (min 255 (readNat 10 n))))"

definition rgbComponents :: "rx list" where
  "rgbComponents =
     [Rep True 0 None Space, Open, Rep True 1 None Digit, Close, Rep True 0 None Space, Lit '','',
      Rep True 0 None Space, Open, Rep True 1 None Digit, Close, Rep True 0 None Space, Lit '','',
      Rep True 0 None Space, Open, Rep True 1 None Digit, Close]"

definition rgbPattern :: "rx list" where
  "rgbPattern =
     [Bos, Rep True 1 (Some 1) (NoCase CHR ''r''), Rep True 1 (Some 1) (NoCase CHR ''g''),
      Rep True 1 (Some 1) (NoCase CHR ''b''), Rep True 0 (Some 1) (NoCase CHR ''a''), Lit ''(''] @ rgbComponents"

text \<open>The two hexadecimal digits of a number below 256.\<close>

definition hexPair :: "nat \<Rightarrow> string" where
  "hexPair v = [digitChar (v div 16), digitChar (v mod 16)]"

definition rgbToHex :: "string \<Rightarrow> string" where
  "rgbToHex c =
     (case matchRx rgbPattern (trim c) of
        None \<Rightarrow> c
      | Some rgb \<Rightarrow> ''#'' @ toHex (grp rgb 0) @ toHex (grp rgb 1) @ toHex (grp rgb 2))"

fun radixDigits :: "nat \<Rightarrow> string \<Rightarrow> string" where
  "radixDigits b s = takeWhile (\<lambda>c. isHexDigit c \<and> digitVal c < b) s"

definition parseInt :: "string \<Rightarrow> int option" where
  "parseInt str =
     (let s = dropWhile isSpace str;
          neg = (s \<noteq> [] \<and> hd s = CHR ''-'');
          s1 = (if s \<noteq> [] \<and> (hd s = CHR ''-'' \<or> hd s = CHR ''+'') then tl s else s);
          hex = (prefix ''0x'' s1 \<or> prefix ''0X'' s1);
          b = (if hex then 16 else 10);
          z = radixDigits b (if hex then drop 2 s1 else s1)
      in if z = [] then None
         else Some ((if neg then - 1 else 1) * int (readNat b z)))"

definition leJs :: "int option \<Rightarrow> int \<Rightarrow> bool" where
  "leJs s k = (case s of Some v \<Rightarrow> v \<le> k | None \<Rightarrow> False)"

definition geJs :: "int option \<Rightarrow> int \<Rightarrow> bool" where
  "geJs s k = (case s of Some v \<Rightarrow> v \<ge> k | None \<Rightarrow> False)"

definition sizeCommand :: "int option \<Rightarrow> string" where
  "sizeCommand s =
     (if leJs s 6 then BS # ''tiny ''
      else if leJs s 7 then BS # ''scriptsize ''
      else if leJs s 8 then BS # ''footnotesize ''
      else if leJs s 9 then BS # ''small ''
      else if geJs s 24 then BS # ''Huge ''
      else if geJs s 20 then BS # ''huge ''
      else if geJs s 17 then BS # ''LARGE ''
      else if geJs s 14 then BS # ''Large ''
      else if geJs s 12 then BS # ''large ''
      else BS # ''normalsize '')"

definition colorStep :: "style \<Rightarrow> string \<times> string \<Rightarrow> string \<times> string" where
  "colorStep st ps =
     (if color st \<noteq> [] \<and> color st \<noteq> ''inherit'' \<and> \<not> str_includes (color st) ''black''
      then (fst ps @ BS # ''textcolor{'' @ rgbToHex (color st) @ ''}{'', ''}'' @ snd ps) else ps)"

definition bgStep :: "style \<Rightarrow> string \<times> string \<Rightarrow> string \<times> string" where
  "bgStep st ps =
     (if backgroundColor st \<noteq> [] \<and> backgroundColor st \<noteq> ''inherit''
         \<and> \<not> str_includes (backgroundColor st) ''rgba(0, 0, 0, 0)''
      then (fst ps @ BS # ''colorbox{'' @ rgbToHex (backgroundColor st) @ ''}{'', ''}'' @ snd ps) else ps)"

definition alignStep :: "style \<Rightarrow> string \<times> string \<Rightarrow> string \<times> string" where
  "alignStep st ps =
     (if textAlign st = ''center''
      then (''\<newline>'' @ BS # ''begin{center}\<newline>'' @ fst ps, snd ps @ ''\<newline>'' @ BS # ''end{center}\<newline>'')
      else if textAlign st = ''right''
      then (''\<newline>'' @ BS # ''begin{flushright}\<newline>'' @ fst ps, snd ps @ ''\<newline>'' @ BS # ''end{flushright}\<newline>'')
      else ps)"

definition familyStep :: "style \<Rightarrow> string \<times> string \<Rightarrow> string \<times> string" where
  "familyStep st ps =
     (if fontFamily st \<noteq> [] \<and> str_includes (fontFamily st) ''sans''
      then (fst ps @ BS # ''textsf{'', ''}'' @ snd ps) else ps)"

definition sizeStep :: "style \<Rightarrow> string \<times> string \<Rightarrow> string \<times> string" where
  "sizeStep st ps =
     (if fontSize st \<noteq> [] then (fst ps @ sizeCommand (parseInt (fontSize st)), snd ps) else ps)"

definition styleWrap :: "style \<Rightarrow> string \<times> string" where
  "styleWrap st = sizeStep st (familyStep st (alignStep st (bgStep st (colorStep st ([], [])))))"

definition attrText :: "node \<Rightarrow> string \<Rightarrow> string" where
  "attrText n name = (case getAttribute n name of Some v \<Rightarrow> v | None \<Rightarrow> ''null'')"

definition emitTag :: "node \<Rightarrow> string \<Rightarrow> string \<Rightarrow> string \<Rightarrow> string" where
  "emitTag n pre suf childContent =
     (let tag = toLowerCase (tagName n) in
      if tag = ''h1'' then pre @ ''\<newline>'' @ BS # ''section{'' @ childContent @ ''}\<newline>'' @ suf
      else if tag = ''h2'' then pre @ ''\<newline>'' @ BS # ''subsection{'' @ childContent @ ''}\<newline>'' @ suf
      else if tag = ''h3'' then pre @ ''\<newline>'' @ BS # ''subsubsection{'' @ childContent @ ''}\<newline>'' @ suf
      else if tag = ''h4'' then pre @ ''\<newline>'' @ BS # ''paragraph{'' @ childContent @ ''}\<newline>'' @ suf
      else if tag = ''b'' \<or> tag = ''strong'' then pre @ BS # ''textbf{'' @ childContent @ ''}'' @ suf
      else if tag = ''i'' \<or> tag = ''em'' then pre @ BS # ''textit{'' @ childContent @ ''}'' @ suf
      else if tag = ''u'' then pre @ BS # ''underline{'' @ childContent @ ''}'' @ suf
      else if tag = ''a'' then pre @ BS # ''href{'' @ attrText n ''href'' @ ''}{'' @ childContent @ ''}'' @ suf
      else if tag = ''img''
        then pre @ BS # ''includegraphics[width='' @ BS # ''linewidth]{'' @ attrText n ''src'' @ ''}'' @ suf
      else if tag = ''ul''
        then pre @ ''\<newline>'' @ BS # ''begin{itemize}\<newline>'' @ childContent @ BS # ''end{itemize}\<newline>'' @ suf
      else if tag = ''ol''
        then pre @ ''\<newline>'' @ BS # ''begin{enumerate}\<newline>'' @ childContent @ BS # ''end{enumerate}\<newline>'' @ suf
      else if tag = ''li''
        then ''  '' @ BS # ''item''
               @ (if querySelector isCheckboxInput n \<noteq> None then ''[$'' @ BS # ''square$] '' else '' '')
               @ replaceFirst [Bos, Rep True 0 None Space] (\<lambda>_. []) childContent @ ''\<newline>''
      else if tag = ''br'' then []
      else if tag = ''div'' \<or> tag = ''p'' then ''\<newline>\<newline>'' @ childContent @ ''\<newline>\<newline>''
      else pre @ childContent @ suf)"

fun joinResults :: "(failure + string) list \<Rightarrow> failure + string" where
  "joinResults [] = Inr []"
| "joinResults (Inl e # rs) = Inl e"
| "joinResults (Inr x # rs) = (case joinResults rs of Inl e \<Rightarrow> Inl e | Inr y \<Rightarrow> Inr (x @ y))"

definition mathSource :: "node \<Rightarrow> string \<Rightarrow> failure + string" where
  "mathSource n editor =
     (case querySelector (isTag editor) n of
        Some input \<Rightarrow> Inr (valueOf input)
      | None \<Rightarrow> decodeURIComponent (case getAttribute n ''data-latex'' of Some v \<Rightarrow> v | None \<Rightarrow> []))"

fun traverse :: "node \<Rightarrow> failure + string" where
  "traverse (TextNode t) = Inr (escapeLatex (replaceAll [Rep True 1 None Space] (\<lambda>_. '' '') t))"
| "traverse OtherNode = Inr []"
| "traverse (Element tag attrs st v cs) =
     (let n = Element tag attrs st v cs in
      if classListContains n ''math-block''
      then (case mathSource n ''textarea'' of
              Inl e \<Rightarrow> Inl e
            | Inr latex \<Rightarrow> Inr (''\<newline>'' @ BS # ''[\<newline>'' @ latex @ ''\<newline>'' @ BS # '']\<newline>''))
      else if classListContains n ''math-inline''
      then (case mathSource n ''input'' of
              Inl e \<Rightarrow> Inl e
            | Inr latex \<Rightarrow> Inr (''$'' @ latex @ ''$''))
      else if toLowerCase tag = ''pre''
      then Inr (''\<newline>'' @ BS # ''begin{verbatim}\<newline>'' @ textContent n @ ''\<newline>'' @ BS # ''end{verbatim}\<newline>'')
      else if toLowerCase tag = ''code'' then Inr (BS # ''texttt{'' @ textContent n @ ''}'')
      else case joinResults (map traverse cs) of
             Inl e \<Rightarrow> Inl e
           | Inr childContent \<Rightarrow> Inr (emitTag n (fst (styleWrap st)) (snd (styleWrap st)) childContent))"

abbreviation NL :: char where
  "NL \<equiv> CHR 0x0A"

text \<open>The number of newlines a text starts with.\<close>

abbreviation lead :: "string \<Rightarrow> nat" where
  "lead s \<equiv> length (takeWhile (\<lambda>x. x = NL) s)"

definition collapseBlankLines :: "string \<Rightarrow> string" where
  "collapseBlankLines s = replaceAll [Rep True 3 None (Only NL)] (\<lambda>_. [NL, NL]) s"

text \<open>The same replacement, resumed in the middle of a text after the character \<open>p\<close>.\<close>

definition outNL :: "char option \<Rightarrow> string \<Rightarrow> string" where
  "outNL p s = concat (map (emit (\<lambda>_. [NL, NL])) (scan [Rep True 3 None (Only NL)] p s))"

definition normalize :: "string \<Rightarrow> string" where
  "normalize s = trim (collapseBlankLines s)"

definition htmlToLatex :: "(string \<Rightarrow> node list) \<Rightarrow> string \<Rightarrow> failure + string" where
  "htmlToLatex parse html =
     (if html = [] then Inr []
      else case joinResults (map traverse (parse html)) of
        Inl e \<Rightarrow> Inl e
      | Inr out \<Rightarrow> Inr (normalize out))"


section \<open>The matcher on texts that are partly known\<close>

text \<open>
  The equation of \<open>rmatch\<close> for a repetition unfolds on any text. It is replaced, for the
  simplifier, by its two instances on the empty text and on a text with a first character.
\<close>

declare rmatch.simps(3) [simp del]

lemma rmatch_Rep_Nil [simp]:
  "rmatch (Rep greedy mn mx c # k) p [] os cs =
     (if 0 < mn then None else rmatch k p [] os cs)"
  by (simp add: rmatch.simps(3) split: option.split)

lemma rmatch_Rep_Cons [simp]:
  "rmatch (Rep greedy mn mx c # k) p (x # xs) os cs =
     (let more = (if inClass c x
                  then rmatch (Rep greedy (mn - 1) (map_option (\<lambda>m. m - 1) mx) c # k) (Some x) xs os cs
                  else None)
      in if 0 < mn then more
         else if mx = Some 0 then rmatch k p (x # xs) os cs
         else if greedy then (case more of Some r \<Rightarrow> Some r | None \<Rightarrow> rmatch k p (x # xs) os cs)
         else (case rmatch k p (x # xs) os cs of Some r \<Rightarrow> Some r | None \<Rightarrow> more))"
  by (simp add: rmatch.simps(3))


section \<open>The escaper on a backslash\<close>

text \<open>
  C1. The claim: for every text \<open>x\<close> that holds none of the escape forms,
  \<open>unescapeLatex (escapeLatex x) = x\<close>, and the substitutions after the first do not
  escape again what the backslash substitution inserted. On the one-character text made of
  a backslash the code does otherwise: the backslash becomes \<^verbatim>\<open>\textbackslash{}\<close>, the two
  brace rules that follow escape the braces just inserted, and \<open>unescapeLatex\<close>, whose
  first rule looks for \<^verbatim>\<open>\textbackslash{}\<close> with plain braces, only strips the two
  backslashes before the braces. The round trip returns \<^verbatim>\<open>\textbackslash{}\<close>, not the
  backslash.
\<close>

theorem escapeLatex_backslash_not_restored:
  \<open>escapeLatex [BS] = BS # ''textbackslash'' @ [BS, CHR ''{'', BS, CHR ''}'']
   \<and> unescapeLatex (escapeLatex [BS]) = BS # ''textbackslash{}''
   \<and> unescapeLatex (escapeLatex [BS]) \<noteq> [BS]\<close>
  by code_simp

section \<open>Nested protected regions\<close>

text \<open>
  C3. The claim: when the input holds no placeholder token, none is left in the result of
  \<open>latexToHtml\<close>, also when protected regions are nested. On inline code that holds inline
  math, \<^verbatim>\<open>\texttt{$x$}\<close>, the math is protected first as block 0, the code span is then
  protected as block 1 with the token of block 0 inside it, and the single restoring pass
  puts block 1 back without reading what it has put back: the token of block 0 is in the
  result, with or without the math adapter.
\<close>

theorem latexToHtml_nested_block_leaks:
  \<open>latexToHtml katex (BS # ''texttt{$x$}'')
     = ''<code class="bg-slate-100 px-1.5 py-0.5 rounded text-sm font-mono text-pink-600">__PROTECTED_BLOCK_0__</code>''
   \<and> \<not> str_includes (BS # ''texttt{$x$}'') ''__PROTECTED_BLOCK_''
   \<and> str_includes (latexToHtml katex (BS # ''texttt{$x$}'')) ''__PROTECTED_BLOCK_0__''\<close>
  by code_simp

section \<open>The checkbox list of scenario C\<close>

text \<open>
  C4. The claim: the checkbox list with the items Task1 and Task2 becomes a list of two
  checkbox items, and comes back as two \<^verbatim>\<open>\item[$\square$]\<close> entries. In the code the
  pattern consumes the first item marker before the captured group, so the group, split at
  the marker, starts with the text of the first item: Task1 is placed in the list with no
  list item and no checkbox around it, followed by an unmatched closing tag (the code
  removes a leading closing tag, which is not there). Only Task2 is a checkbox item. Read
  back from the tree of that markup (the list holding the text Task1 and one item), the
  result has a single \<^verbatim>\<open>\item\<close>.
\<close>

theorem latexToHtml_checkbox_first_item_lost:
  \<open>latexToHtml katex
       (BS # ''begin{itemize}'' @ BS # ''item[$'' @ BS # ''square$]Task1'' @ BS # ''item[$''
          @ BS # ''square$]Task2'' @ BS # ''end{itemize}'')
     = ''<ul style="list-style-type: none;">Task1</li><li><input type="checkbox" disabled> Task2</li></ul>''
   \<and> htmlToLatex
         (\<lambda>html. [Element ''UL'' [(''style'', ''list-style-type: none;'')] noStyle []
                    [TextNode ''Task1'',
                     Element ''LI'' [] noStyle []
                       [Element ''INPUT'' [(''type'', ''checkbox''), (''disabled'', [])] noStyle ''on'' [],
                        TextNode '' Task2'']]])
         ''<ul style="list-style-type: none;">Task1</li><li><input type="checkbox" disabled> Task2</li></ul>''
     = Inr (BS # ''begin{itemize}\<newline>Task1  '' @ BS # ''item[$'' @ BS # ''square$] Task2\<newline>''
              @ BS # ''end{itemize}'')\<close>
  by code_simp

section \<open>Scenario A: a section heading\<close>

lemma htmlToLatex_parse_cong:
  "parse html = ns \<Longrightarrow> htmlToLatex parse html = htmlToLatex (\<lambda>_. ns) html"
  by (simp add: htmlToLatex_def)

text \<open>
  C9. Forward, \<^verbatim>\<open>\section{Demo}\<close> becomes the markup of one first-level heading with
  the text Demo, with or without the math adapter. The markup is handed to the browser's
  fragment parser, a parameter of \<open>htmlToLatex\<close>; when the parser returns the tree of
  that markup, one \<open>H1\<close> element holding one text node, the backward compiler returns
  exactly \<^verbatim>\<open>\section{Demo}\<close>: the newlines put around the heading are removed by the
  final trimming.
\<close>

theorem section_demo_round_trip:
  assumes \<open>parse ''<h1>Demo</h1>'' = [Element ''H1'' [] noStyle [] [TextNode ''Demo'']]\<close>
  shows \<open>latexToHtml katex (BS # ''section{Demo}'') = ''<h1>Demo</h1>''
    \<and> htmlToLatex parse (latexToHtml katex (BS # ''section{Demo}'')) = Inr (BS # ''section{Demo}'')\<close>
proof -
  have fwd: \<open>latexToHtml katex (BS # ''section{Demo}'') = ''<h1>Demo</h1>''\<close>
    by code_simp
  have bwd: \<open>htmlToLatex (\<lambda>_. [Element ''H1'' [] noStyle [] [TextNode ''Demo'']]) ''<h1>Demo</h1>''
      = Inr (BS # ''section{Demo}'')\<close>
    by code_simp
  show ?thesis
    unfolding fwd using htmlToLatex_parse_cong [of parse _ _, OF assms] bwd by simp
qed

theorem section_demo_round_trip_witness:
  \<open>latexToHtml None (BS # ''section{Demo}'') = ''<h1>Demo</h1>''
    \<and> htmlToLatex (\<lambda>html. [Element ''H1'' [] noStyle [] [TextNode ''Demo'']])
          (latexToHtml None (BS # ''section{Demo}'')) = Inr (BS # ''section{Demo}'')\<close>
  by (rule section_demo_round_trip [where parse = "\<lambda>html. [Element ''H1'' [] noStyle [] [TextNode ''Demo'']]"]) simp

section \<open>Style wrappers of the backward compiler\<close>

lemma emitTag_wrapper:
  "toLowerCase tag \<notin> set [''li'', ''br'', ''div'', ''p''] \<Longrightarrow>
   emitTag (Element tag attrs st v cs) pre suf cc = pre @ emitTag (Element tag attrs st v cs) [] [] cc @ suf"
  by (simp add: emitTag_def Let_def)

lemma traverse_wrapper:
  assumes "\<not> classListContains (Element tag attrs st v cs) ''math-block''"
    and "\<not> classListContains (Element tag attrs st v cs) ''math-inline''"
    and "toLowerCase tag \<notin> set [''pre'', ''code'', ''li'', ''br'', ''div'', ''p'']"
    and "joinResults (map traverse cs) = Inr cc"
  shows "traverse (Element tag attrs st v cs)
    = Inr (fst (styleWrap st) @ emitTag (Element tag attrs st v cs) [] [] cc @ snd (styleWrap st))"
proof -
  have "toLowerCase tag \<notin> set [''li'', ''br'', ''div'', ''p'']" using assms(3) by simp
  then have e: "emitTag (Element tag attrs st v cs) (fst (styleWrap st)) (snd (styleWrap st)) cc
      = fst (styleWrap st) @ emitTag (Element tag attrs st v cs) [] [] cc @ snd (styleWrap st)"
    by (rule emitTag_wrapper)
  show ?thesis
    using assms by (simp add: Let_def e)
qed

lemma classList_style_irrelevant:
  "classListContains (Element tag attrs st v cs) c = classListContains (Element tag attrs st' v cs) c"
  by (simp add: classListContains_def)

lemma emitTag_style_irrelevant:
  "emitTag (Element tag attrs st v cs) p s cc = emitTag (Element tag attrs st' v cs) p s cc"
  by (simp add: emitTag_def Let_def attrText_def querySelector_def)

lemma mathSource_style_irrelevant:
  "mathSource (Element tag attrs st v cs) e = mathSource (Element tag attrs st' v cs) e"
  by (simp add: mathSource_def querySelector_def cong: option.case_cong)

lemma traverse_style_cong:
  assumes "styleWrap st = styleWrap st'"
  shows "traverse (Element tag attrs st v cs) = traverse (Element tag attrs st' v cs)"
proof -
  have m: "\<And>e. mathSource (Element tag attrs st v cs) e = mathSource (Element tag attrs st' v cs) e"
    by (rule mathSource_style_irrelevant)
  have c: "\<And>x. classListContains (Element tag attrs st v cs) x = classListContains (Element tag attrs st' v cs) x"
    by (rule classList_style_irrelevant)
  have e: "\<And>p s cc. emitTag (Element tag attrs st v cs) p s cc = emitTag (Element tag attrs st' v cs) p s cc"
    by (rule emitTag_style_irrelevant)
  show ?thesis
    by (simp only: traverse.simps Let_def m c e assms textContent.simps)
qed

text \<open>
  C5, as amended. The size command is a total function of the parsed size: the ten boundary
  sizes give the ten commands, every size between two boundaries gives the command of the
  boundary below it, sizes below 6 give \<^verbatim>\<open>\tiny\<close>, and a size that does not parse
  gives \<^verbatim>\<open>\normalsize\<close>. For an element that takes the style wrapper (not a math node,
  and its tag none of pre, code, li, br, div, p) with a font size set, the result is the
  result for the same element without font size, with exactly that one command added at
  the end of the prefix and nothing added to the suffix.
\<close>

theorem font_size_bucket:
  \<open>sizeCommand (Some 6) = BS # ''tiny '' \<and> sizeCommand (Some 7) = BS # ''scriptsize ''
   \<and> sizeCommand (Some 8) = BS # ''footnotesize '' \<and> sizeCommand (Some 9) = BS # ''small ''
   \<and> sizeCommand (Some 10) = BS # ''normalsize '' \<and> sizeCommand (Some 12) = BS # ''large ''
   \<and> sizeCommand (Some 14) = BS # ''Large '' \<and> sizeCommand (Some 17) = BS # ''LARGE ''
   \<and> sizeCommand (Some 20) = BS # ''huge '' \<and> sizeCommand (Some 24) = BS # ''Huge ''
   \<and> (\<forall>s. s \<le> 6 \<longrightarrow> sizeCommand (Some s) = BS # ''tiny '')
   \<and> (\<forall>s. 10 \<le> s \<and> s < 12 \<longrightarrow> sizeCommand (Some s) = BS # ''normalsize '')
   \<and> (\<forall>s. 12 \<le> s \<and> s < 14 \<longrightarrow> sizeCommand (Some s) = BS # ''large '')
   \<and> (\<forall>s. 14 \<le> s \<and> s < 17 \<longrightarrow> sizeCommand (Some s) = BS # ''Large '')
   \<and> (\<forall>s. 17 \<le> s \<and> s < 20 \<longrightarrow> sizeCommand (Some s) = BS # ''LARGE '')
   \<and> (\<forall>s. 20 \<le> s \<and> s < 24 \<longrightarrow> sizeCommand (Some s) = BS # ''huge '')
   \<and> (\<forall>s. 24 \<le> s \<longrightarrow> sizeCommand (Some s) = BS # ''Huge '')
   \<and> sizeCommand None = BS # ''normalsize ''
   \<and> (\<not> classListContains (Element tag attrs st v cs) ''math-block''
        \<and> \<not> classListContains (Element tag attrs st v cs) ''math-inline''
        \<and> toLowerCase tag \<notin> set [''pre'', ''code'', ''li'', ''br'', ''div'', ''p'']
        \<and> fontSize st \<noteq> []
        \<and> joinResults (map traverse cs) = Inr cc
      \<longrightarrow> traverse (Element tag attrs (st\<lparr>fontSize := []\<rparr>) v cs)
            = Inr (fst (styleWrap (st\<lparr>fontSize := []\<rparr>))
                   @ emitTag (Element tag attrs st v cs) [] [] cc
                   @ snd (styleWrap (st\<lparr>fontSize := []\<rparr>)))
          \<and> traverse (Element tag attrs st v cs)
            = Inr (fst (styleWrap (st\<lparr>fontSize := []\<rparr>))
                   @ sizeCommand (parseInt (fontSize st))
                   @ emitTag (Element tag attrs st v cs) [] [] cc
                   @ snd (styleWrap (st\<lparr>fontSize := []\<rparr>))))\<close>
proof -
  have table: \<open>sizeCommand (Some 6) = BS # ''tiny '' \<and> sizeCommand (Some 7) = BS # ''scriptsize ''
   \<and> sizeCommand (Some 8) = BS # ''footnotesize '' \<and> sizeCommand (Some 9) = BS # ''small ''
   \<and> sizeCommand (Some 10) = BS # ''normalsize '' \<and> sizeCommand (Some 12) = BS # ''large ''
   \<and> sizeCommand (Some 14) = BS # ''Large '' \<and> sizeCommand (Some 17) = BS # ''LARGE ''
   \<and> sizeCommand (Some 20) = BS # ''huge '' \<and> sizeCommand (Some 24) = BS # ''Huge ''
   \<and> sizeCommand None = BS # ''normalsize ''\<close>
    by (simp add: sizeCommand_def leJs_def geJs_def)
  have ranges: \<open>(\<forall>s. s \<le> 6 \<longrightarrow> sizeCommand (Some s) = BS # ''tiny '')
   \<and> (\<forall>s. 10 \<le> s \<and> s < 12 \<longrightarrow> sizeCommand (Some s) = BS # ''normalsize '')
   \<and> (\<forall>s. 12 \<le> s \<and> s < 14 \<longrightarrow> sizeCommand (Some s) = BS # ''large '')
   \<and> (\<forall>s. 14 \<le> s \<and> s < 17 \<longrightarrow> sizeCommand (Some s) = BS # ''Large '')
   \<and> (\<forall>s. 17 \<le> s \<and> s < 20 \<longrightarrow> sizeCommand (Some s) = BS # ''LARGE '')
   \<and> (\<forall>s. 20 \<le> s \<and> s < 24 \<longrightarrow> sizeCommand (Some s) = BS # ''huge '')
   \<and> (\<forall>s. 24 \<le> s \<longrightarrow> sizeCommand (Some s) = BS # ''Huge '')\<close>
    by (simp add: sizeCommand_def leJs_def geJs_def)
  have sized: \<open>fontSize st \<noteq> [] \<Longrightarrow>
      styleWrap st = (fst (styleWrap (st\<lparr>fontSize := []\<rparr>)) @ sizeCommand (parseInt (fontSize st)),
                      snd (styleWrap (st\<lparr>fontSize := []\<rparr>)))\<close>
    by (simp add: styleWrap_def sizeStep_def familyStep_def alignStep_def bgStep_def colorStep_def)
  have wrap: \<open>\<not> classListContains (Element tag attrs st v cs) ''math-block''
        \<and> \<not> classListContains (Element tag attrs st v cs) ''math-inline''
        \<and> toLowerCase tag \<notin> set [''pre'', ''code'', ''li'', ''br'', ''div'', ''p'']
        \<and> fontSize st \<noteq> []
        \<and> joinResults (map traverse cs) = Inr cc
      \<longrightarrow> traverse (Element tag attrs (st\<lparr>fontSize := []\<rparr>) v cs)
            = Inr (fst (styleWrap (st\<lparr>fontSize := []\<rparr>))
                   @ emitTag (Element tag attrs st v cs) [] [] cc
                   @ snd (styleWrap (st\<lparr>fontSize := []\<rparr>)))
          \<and> traverse (Element tag attrs st v cs)
            = Inr (fst (styleWrap (st\<lparr>fontSize := []\<rparr>))
                   @ sizeCommand (parseInt (fontSize st))
                   @ emitTag (Element tag attrs st v cs) [] [] cc
                   @ snd (styleWrap (st\<lparr>fontSize := []\<rparr>)))\<close>
  proof (intro impI conjI, goal_cases)
    case 1
    then have a: "\<not> classListContains (Element tag attrs (st\<lparr>fontSize := []\<rparr>) v cs) ''math-block''"
      and b: "\<not> classListContains (Element tag attrs (st\<lparr>fontSize := []\<rparr>) v cs) ''math-inline''"
      using classList_style_irrelevant [of tag attrs st v cs _ "st\<lparr>fontSize := []\<rparr>"] by simp_all
    from 1 have c: "toLowerCase tag \<notin> set [''pre'', ''code'', ''li'', ''br'', ''div'', ''p'']"
      and d: "joinResults (map traverse cs) = Inr cc" by simp_all
    show ?case
      using traverse_wrapper [OF a b c d]
        emitTag_style_irrelevant [of tag attrs st v cs "[]" "[]" cc "st\<lparr>fontSize := []\<rparr>"]
      by simp
  next
    case 2
    then have a: "\<not> classListContains (Element tag attrs st v cs) ''math-block''"
      and b: "\<not> classListContains (Element tag attrs st v cs) ''math-inline''"
      and c: "toLowerCase tag \<notin> set [''pre'', ''code'', ''li'', ''br'', ''div'', ''p'']"
      and d: "joinResults (map traverse cs) = Inr cc" and e: "fontSize st \<noteq> []" by simp_all
    show ?case
      using traverse_wrapper [OF a b c d] sized [OF e] by simp
  qed
  show ?thesis using table ranges wrap by blast
qed

theorem font_size_bucket_witness:
  \<open>sizeCommand (Some 11) = BS # ''normalsize ''
   \<and> sizeCommand (Some 23) = BS # ''huge ''
   \<and> traverse (Element ''SPAN'' [] (noStyle\<lparr>fontSize := ''17.28pt''\<rparr>) [] [TextNode ''x''])
       = Inr (BS # ''LARGE x'')\<close>
proof -
  have pre: \<open>\<not> classListContains (Element ''SPAN'' [] (noStyle\<lparr>fontSize := ''17.28pt''\<rparr>) [] [TextNode ''x'']) ''math-block''
        \<and> \<not> classListContains (Element ''SPAN'' [] (noStyle\<lparr>fontSize := ''17.28pt''\<rparr>) [] [TextNode ''x'']) ''math-inline''
        \<and> toLowerCase ''SPAN'' \<notin> set [''pre'', ''code'', ''li'', ''br'', ''div'', ''p'']
        \<and> fontSize (noStyle\<lparr>fontSize := ''17.28pt''\<rparr>) \<noteq> []
        \<and> joinResults (map traverse [TextNode ''x'']) = Inr ''x''\<close>
    by code_simp
  have post: \<open>fst (styleWrap (noStyle\<lparr>fontSize := ''17.28pt''\<rparr>\<lparr>fontSize := []\<rparr>))
                   @ sizeCommand (parseInt (fontSize (noStyle\<lparr>fontSize := ''17.28pt''\<rparr>)))
                   @ emitTag (Element ''SPAN'' [] (noStyle\<lparr>fontSize := ''17.28pt''\<rparr>) [] [TextNode ''x'']) [] [] ''x''
                   @ snd (styleWrap (noStyle\<lparr>fontSize := ''17.28pt''\<rparr>\<lparr>fontSize := []\<rparr>)) = BS # ''LARGE x''\<close>
    by code_simp
  show ?thesis
    using font_size_bucket [of "''SPAN''" "[]" "noStyle\<lparr>fontSize := ''17.28pt''\<rparr>" "[]" "[TextNode ''x'']" "''x''"]
      pre post by simp
qed

text \<open>
  The claim C5 as stated, one size command for every sized node, fails on a sized
  \<open>div\<close>: the code returns the content of a \<open>div\<close> or \<open>p\<close> between blank lines and
  drops the style prefix it has computed.
\<close>

theorem sized_div_counterexample:
  \<open>fontSize (noStyle\<lparr>fontSize := ''24px''\<rparr>) = ''24px''
   \<and> traverse (Element ''DIV'' [] (noStyle\<lparr>fontSize := ''24px''\<rparr>) [] [TextNode ''x''])
       = Inr ''\<newline>\<newline>x\<newline>\<newline>''\<close>
  by code_simp

text \<open>
  C6, as amended. A background value that holds the text \<^verbatim>\<open>rgba(0, 0, 0, 0)\<close>, the form
  in which the style object reports the fully transparent colour, is treated as not set:
  the element compiles to what it compiles to with no background. For an element that
  takes the style wrapper, any other background value that is set and is not
  \<^verbatim>\<open>inherit\<close> puts one \<^verbatim>\<open>\colorbox\<close> wrapper, with the colour converted by
  \<open>rgbToHex\<close>, around an inner part of what the element compiles to without background.
\<close>

theorem background_wrapper:
  \<open>(str_includes (backgroundColor st) ''rgba(0, 0, 0, 0)''
      \<longrightarrow> traverse (Element tag attrs st v cs)
            = traverse (Element tag attrs (st\<lparr>backgroundColor := []\<rparr>) v cs))
   \<and> (\<not> classListContains (Element tag attrs st v cs) ''math-block''
        \<and> \<not> classListContains (Element tag attrs st v cs) ''math-inline''
        \<and> toLowerCase tag \<notin> set [''pre'', ''code'', ''li'', ''br'', ''div'', ''p'']
        \<and> backgroundColor st \<noteq> [] \<and> backgroundColor st \<noteq> ''inherit''
        \<and> \<not> str_includes (backgroundColor st) ''rgba(0, 0, 0, 0)''
        \<and> joinResults (map traverse cs) = Inr cc
      \<longrightarrow> (\<exists>pre inner post.
            traverse (Element tag attrs (st\<lparr>backgroundColor := []\<rparr>) v cs) = Inr (pre @ inner @ post)
          \<and> traverse (Element tag attrs st v cs)
              = Inr (pre @ BS # ''colorbox{'' @ rgbToHex (backgroundColor st) @ ''}{'' @ inner @ ''}'' @ post)))\<close>
proof (intro conjI impI)
  assume "str_includes (backgroundColor st) ''rgba(0, 0, 0, 0)''"
  then have "styleWrap st = styleWrap (st\<lparr>backgroundColor := []\<rparr>)"
    by (simp add: styleWrap_def sizeStep_def familyStep_def alignStep_def bgStep_def colorStep_def)
  then show "traverse (Element tag attrs st v cs) = traverse (Element tag attrs (st\<lparr>backgroundColor := []\<rparr>) v cs)"
    by (rule traverse_style_cong)
next
  let ?st0 = "st\<lparr>backgroundColor := []\<rparr>"
  let ?core = "emitTag (Element tag attrs st v cs) [] [] cc"
  let ?pre = "fst (alignStep st (colorStep st ([], [])))"
  let ?post = "snd (alignStep st (colorStep st ([], [])))"
  let ?inner = "fst (sizeStep st (familyStep st ([], []))) @ ?core @ snd (sizeStep st (familyStep st ([], [])))"
  assume h: "\<not> classListContains (Element tag attrs st v cs) ''math-block''
        \<and> \<not> classListContains (Element tag attrs st v cs) ''math-inline''
        \<and> toLowerCase tag \<notin> set [''pre'', ''code'', ''li'', ''br'', ''div'', ''p'']
        \<and> backgroundColor st \<noteq> [] \<and> backgroundColor st \<noteq> ''inherit''
        \<and> \<not> str_includes (backgroundColor st) ''rgba(0, 0, 0, 0)''
        \<and> joinResults (map traverse cs) = Inr cc"
  then have a: "\<not> classListContains (Element tag attrs st v cs) ''math-block''"
    and b: "\<not> classListContains (Element tag attrs st v cs) ''math-inline''"
    and c: "toLowerCase tag \<notin> set [''pre'', ''code'', ''li'', ''br'', ''div'', ''p'']"
    and d: "joinResults (map traverse cs) = Inr cc" by simp_all
  have a0: "\<not> classListContains (Element tag attrs ?st0 v cs) ''math-block''"
    and b0: "\<not> classListContains (Element tag attrs ?st0 v cs) ''math-inline''"
    using a b classList_style_irrelevant [of tag attrs st v cs _ ?st0] by simp_all
  have with_bg: "styleWrap st = (?pre @ BS # ''colorbox{'' @ rgbToHex (backgroundColor st) @ ''}{''
        @ fst (sizeStep st (familyStep st ([], []))),
      snd (sizeStep st (familyStep st ([], []))) @ ''}'' @ ?post)"
    using h by (simp add: styleWrap_def sizeStep_def familyStep_def alignStep_def bgStep_def colorStep_def)
  have without: "styleWrap ?st0 = (?pre @ fst (sizeStep st (familyStep st ([], []))),
      snd (sizeStep st (familyStep st ([], []))) @ ?post)"
    by (simp add: styleWrap_def sizeStep_def familyStep_def alignStep_def bgStep_def colorStep_def)
  have 1: "traverse (Element tag attrs ?st0 v cs) = Inr (?pre @ ?inner @ ?post)"
    using traverse_wrapper [OF a0 b0 c d] without
      emitTag_style_irrelevant [of tag attrs st v cs "[]" "[]" cc ?st0] by simp
  have 2: "traverse (Element tag attrs st v cs)
      = Inr (?pre @ BS # ''colorbox{'' @ rgbToHex (backgroundColor st) @ ''}{'' @ ?inner @ ''}'' @ ?post)"
    using traverse_wrapper [OF a b c d] with_bg by simp
  show "\<exists>pre inner post.
            traverse (Element tag attrs ?st0 v cs) = Inr (pre @ inner @ post)
          \<and> traverse (Element tag attrs st v cs)
              = Inr (pre @ BS # ''colorbox{'' @ rgbToHex (backgroundColor st) @ ''}{'' @ inner @ ''}'' @ post)"
    using 1 2 by blast
qed

theorem background_wrapper_witness:
  \<open>traverse (Element ''SPAN'' [] (noStyle\<lparr>backgroundColor := ''rgba(0, 0, 0, 0)''\<rparr>) [] [TextNode ''x''])
     = traverse (Element ''SPAN'' [] (noStyle\<lparr>backgroundColor := []\<rparr>) [] [TextNode ''x''])
   \<and> traverse (Element ''SPAN'' [] (noStyle\<lparr>backgroundColor := ''rgba(0, 0, 0, 0)''\<rparr>) [] [TextNode ''x'']) = Inr ''x''
   \<and> (\<exists>pre inner post.
        traverse (Element ''SPAN'' [] (noStyle\<lparr>backgroundColor := []\<rparr>) [] [TextNode ''x'']) = Inr (pre @ inner @ post)
      \<and> traverse (Element ''SPAN'' [] (noStyle\<lparr>backgroundColor := ''rgb(1, 2, 3)''\<rparr>) [] [TextNode ''x''])
          = Inr (pre @ BS # ''colorbox{#010203}{'' @ inner @ ''}'' @ post))\<close>
proof -
  have t: \<open>str_includes (backgroundColor (noStyle\<lparr>backgroundColor := ''rgba(0, 0, 0, 0)''\<rparr>)) ''rgba(0, 0, 0, 0)''\<close>
    by code_simp
  have e: \<open>traverse (Element ''SPAN'' [] (noStyle\<lparr>backgroundColor := []\<rparr>) [] [TextNode ''x'']) = Inr ''x''\<close>
    by code_simp
  have pre: \<open>\<not> classListContains (Element ''SPAN'' [] (noStyle\<lparr>backgroundColor := ''rgb(1, 2, 3)''\<rparr>) [] [TextNode ''x'']) ''math-block''
        \<and> \<not> classListContains (Element ''SPAN'' [] (noStyle\<lparr>backgroundColor := ''rgb(1, 2, 3)''\<rparr>) [] [TextNode ''x'']) ''math-inline''
        \<and> toLowerCase ''SPAN'' \<notin> set [''pre'', ''code'', ''li'', ''br'', ''div'', ''p'']
        \<and> backgroundColor (noStyle\<lparr>backgroundColor := ''rgb(1, 2, 3)''\<rparr>) \<noteq> []
        \<and> backgroundColor (noStyle\<lparr>backgroundColor := ''rgb(1, 2, 3)''\<rparr>) \<noteq> ''inherit''
        \<and> \<not> str_includes (backgroundColor (noStyle\<lparr>backgroundColor := ''rgb(1, 2, 3)''\<rparr>)) ''rgba(0, 0, 0, 0)''
        \<and> joinResults (map traverse [TextNode ''x'']) = Inr ''x''\<close>
    by code_simp
  have hex: \<open>rgbToHex (backgroundColor (noStyle\<lparr>backgroundColor := ''rgb(1, 2, 3)''\<rparr>)) = ''#010203''\<close>
    by code_simp
  have upd: "noStyle\<lparr>backgroundColor := ''rgba(0, 0, 0, 0)''\<rparr>\<lparr>backgroundColor := []\<rparr> = noStyle\<lparr>backgroundColor := []\<rparr>"
    "noStyle\<lparr>backgroundColor := ''rgb(1, 2, 3)''\<rparr>\<lparr>backgroundColor := []\<rparr> = noStyle\<lparr>backgroundColor := []\<rparr>"
    by simp_all
  have 1: \<open>traverse (Element ''SPAN'' [] (noStyle\<lparr>backgroundColor := ''rgba(0, 0, 0, 0)''\<rparr>) [] [TextNode ''x''])
     = traverse (Element ''SPAN'' [] (noStyle\<lparr>backgroundColor := []\<rparr>) [] [TextNode ''x''])\<close>
    using background_wrapper [of "noStyle\<lparr>backgroundColor := ''rgba(0, 0, 0, 0)''\<rparr>" "''SPAN''" "[]" "[]"
        "[TextNode ''x'']" "''x''", THEN conjunct1, THEN mp, OF t]
    unfolding upd by assumption
  have 2: \<open>\<exists>pre inner post.
        traverse (Element ''SPAN'' [] (noStyle\<lparr>backgroundColor := []\<rparr>) [] [TextNode ''x'']) = Inr (pre @ inner @ post)
      \<and> traverse (Element ''SPAN'' [] (noStyle\<lparr>backgroundColor := ''rgb(1, 2, 3)''\<rparr>) [] [TextNode ''x''])
          = Inr (pre @ BS # ''colorbox{#010203}{'' @ inner @ ''}'' @ post)\<close>
    using background_wrapper [of "noStyle\<lparr>backgroundColor := ''rgb(1, 2, 3)''\<rparr>" "''SPAN''" "[]" "[]"
        "[TextNode ''x'']" "''x''", THEN conjunct2, THEN mp, OF pre]
    unfolding upd hex by simp
  show ?thesis using 1 2 e by simp
qed

text \<open>
  The claim C6 as stated, a wrapper for any other background that is set, fails on a
  \<open>div\<close> with the background red, whose style prefix is dropped; and the keyword
  \<^verbatim>\<open>transparent\<close>, which also denotes the transparent colour, is wrapped.
\<close>

theorem background_div_counterexample:
  \<open>backgroundColor (noStyle\<lparr>backgroundColor := ''red''\<rparr>) = ''red''
   \<and> traverse (Element ''DIV'' [] (noStyle\<lparr>backgroundColor := ''red''\<rparr>) [] [TextNode ''x''])
       = Inr ''\<newline>\<newline>x\<newline>\<newline>''
   \<and> traverse (Element ''SPAN'' [] (noStyle\<lparr>backgroundColor := ''transparent''\<rparr>) [] [TextNode ''x''])
       = Inr (BS # ''colorbox{transparent}{x}'')\<close>
  by code_simp


section \<open>Colours: rgbToHex\<close>

lemma lt16_cases:
  "k < (16::nat) \<Longrightarrow> k = 0 \<or> k = 1 \<or> k = 2 \<or> k = 3 \<or> k = 4 \<or> k = 5 \<or> k = 6 \<or> k = 7 \<or> k = 8 \<or> k = 9
     \<or> k = 10 \<or> k = 11 \<or> k = 12 \<or> k = 13 \<or> k = 14 \<or> k = 15"
  by arith

lemma digitChar_table:
  \<open>map digitChar [0, 1, 2, 3, 4, 5, 6, 7, 8, 9, 10, 11, 12, 13, 14, 15] = ''0123456789abcdef''\<close>
  by code_simp

lemma digitVal_table:
  \<open>map digitVal ''0123456789abcdef'' = [0, 1, 2, 3, 4, 5, 6, 7, 8, 9, 10, 11, 12, 13, 14, 15]\<close>
  by code_simp

lemma digitVal_digitChar:
  assumes "k < 16" shows "digitVal (digitChar k) = k"
  using lt16_cases [OF assms] digitChar_table digitVal_table by (elim disjE) simp_all

lemma isHexDigit_digitChar:
  assumes "k < 16" shows "isHexDigit (digitChar k)"
  using lt16_cases [OF assms] digitChar_table by (elim disjE) (simp_all add: isHexDigit_def)

lemma isDigit_digitChar:
  assumes "k < 10" shows "isDigit (digitChar k)"
proof -
  have "k < 16" using assms by simp
  from lt16_cases [OF this] assms digitChar_table show ?thesis
    by (elim disjE) (simp_all add: isDigit_def)
qed
lemma natToString_small: "2 \<le> b \<Longrightarrow> n < b \<Longrightarrow> natToString b n = [digitChar n]"
  by (subst natToString.simps) simp

lemma natToString_step:
  "2 \<le> b \<Longrightarrow> b \<le> n \<Longrightarrow> natToString b n = natToString b (n div b) @ [digitChar (n mod b)]"
  by (subst natToString.simps) simp

lemma toHex_digits:
  "toHex n = [digitChar (min 255 (readNat 10 n) div 16), digitChar (min 255 (readNat 10 n) mod 16)]"
proof -
  let ?v = "min 255 (readNat 10 n)"
  have v: "?v \<le> 255" by simp
  show ?thesis
  proof (cases "?v < 16")
    case True
    then have "natToString 16 ?v = [digitChar ?v]" by (simp add: natToString_small)
    with True show ?thesis by (simp add: toHex_def padStart2_def digitChar_def)
  next
    case False
    then have "natToString 16 ?v = natToString 16 (?v div 16) @ [digitChar (?v mod 16)]"
      by (simp add: natToString_step)
    moreover have "?v div 16 < 16" using v by simp
    ultimately have "natToString 16 ?v = [digitChar (?v div 16), digitChar (?v mod 16)]"
      by (simp add: natToString_small)
    then show ?thesis by (simp add: toHex_def padStart2_def)
  qed
qed

lemma toHex_value: "readNat 16 (toHex n) = min 255 (readNat 10 n)"
proof -
  let ?v = "min 255 (readNat 10 n)"
  have "?v div 16 < 16" by simp
  moreover have "?v mod 16 < 16" by simp
  ultimately show ?thesis
    by (simp add: toHex_digits readNat_def digitVal_digitChar del: min_less_iff_conj)
qed

lemma toHex_shape: "length (toHex n) = 2 \<and> list_all isHexDigit (toHex n)"
proof -
  let ?v = "min 255 (readNat 10 n)"
  have "?v div 16 < 16" by simp
  moreover have "?v mod 16 < 16" by simp
  ultimately show ?thesis
    by (simp add: toHex_digits isHexDigit_digitChar del: min_less_iff_conj)
qed

lemma natToString10_digits: "list_all isDigit (natToString 10 n) \<and> natToString 10 n \<noteq> []"
proof (induction n rule: less_induct)
  case (less n)
  show ?case
  proof (cases "n < 10")
    case True
    then show ?thesis by (simp add: natToString_small isDigit_digitChar)
  next
    case False
    then have "natToString 10 n = natToString 10 (n div 10) @ [digitChar (n mod 10)]"
      by (simp add: natToString_step)
    moreover have "n div 10 < n" using False by simp
    ultimately show ?thesis using less.IH [of "n div 10"] by (simp add: isDigit_digitChar)
  qed
qed

lemma readNat_snoc: "readNat b (ds @ [c]) = b * readNat b ds + digitVal c"
  by (simp add: readNat_def)

lemma readNat_natToString10: "readNat 10 (natToString 10 n) = n"
proof (induction n rule: less_induct)
  case (less n)
  show ?case
  proof (cases "n < 10")
    case True
    then show ?thesis by (simp add: natToString_small readNat_def digitVal_digitChar)
  next
    case False
    then have "natToString 10 n = natToString 10 (n div 10) @ [digitChar (n mod 10)]"
      by (simp add: natToString_step)
    moreover have "n div 10 < n" using False by simp
    moreover have "n mod 10 < 16" by simp
    ultimately show ?thesis using less.IH [of "n div 10"]
      by (simp add: readNat_snoc digitVal_digitChar)
  qed
qed

lemma greedy_run:
  assumes "\<forall>x\<in>set ds. inClass c x" and "mn \<le> length ds"
    and "rest = [] \<or> \<not> inClass c (hd rest)"
    and "rmatch k (lastOr p ds) rest os cs = Some res"
  shows "rmatch (Rep True mn None c # k) p (ds @ rest) os cs = Some res"
  using assms
proof (induction ds arbitrary: mn p)
  case Nil
  then show ?case by (cases rest) auto
next
  case (Cons d ds)
  have "rmatch (Rep True (mn - 1) None c # k) (Some d) (ds @ rest) os cs = Some res"
    using Cons.prems by (intro Cons.IH) auto
  then show ?case using Cons.prems(1) by (simp add: Let_def)
qed

lemma lastOr_last: "ds \<noteq> [] \<Longrightarrow> lastOr p ds = Some (last ds)"
  by (induction ds arbitrary: p) auto

lemma digits_group:
  assumes "list_all isDigit ds" and "ds \<noteq> []" and "rest = [] \<or> \<not> isDigit (hd rest)"
    and "rmatch k (Some (last ds)) rest os (cs @ [ds]) = Some res"
  shows "rmatch (Open # Rep True 1 None Digit # Close # k) p (ds @ rest) os cs = Some res"
proof -
  have "rmatch (Close # k) (lastOr p ds) rest ((ds @ rest) # os) cs = Some res"
    using assms(2,4) by (simp add: lastOr_last)
  moreover have "\<forall>x\<in>set ds. inClass Digit x" using assms(1) by (simp add: list_all_iff)
  moreover have "1 \<le> length ds" using assms(2) by (cases ds) auto
  moreover have "rest = [] \<or> \<not> inClass Digit (hd rest)" using assms(3) by simp
  ultimately have "rmatch (Rep True 1 None Digit # Close # k) p (ds @ rest) ((ds @ rest) # os) cs = Some res"
    by (intro greedy_run) auto
  then show ?thesis by simp
qed

lemma spaces_skip:
  assumes "list_all isSpace ws" and "rest = [] \<or> \<not> isSpace (hd rest)"
    and "rmatch k (lastOr p ws) rest os cs = Some res"
  shows "rmatch (Rep True 0 None Space # k) p (ws @ rest) os cs = Some res"
  using assms by (intro greedy_run) (auto simp: list_all_iff)

lemma digit_not_space: "isDigit x \<Longrightarrow> \<not> isSpace x"
  by (auto simp: isDigit_def isSpace_def)

lemma lower_rgb:
  \<open>toLowerAscii CHR ''r'' = CHR ''r'' \<and> toLowerAscii CHR ''g'' = CHR ''g''
   \<and> toLowerAscii CHR ''b'' = CHR ''b'' \<and> toLowerAscii CHR ''a'' = CHR ''a''
   \<and> toLowerAscii CHR ''('' = CHR ''(''\<close>
  by code_simp

lemma trim_id:
  assumes "s \<noteq> []" and "\<not> isSpace (hd s)" and "\<not> isSpace (last s)"
  shows "trim s = s"
proof -
  have 1: "dropWhile isSpace s = s" using assms(1,2) by (cases s) auto
  have "rev s = last s # tl (rev s)"
    using assms(1) by (metis hd_rev list.collapse rev_is_Nil_conv)
  then have 2: "dropWhile isSpace (rev s) = rev s"
    using assms(3) by (metis dropWhile.simps(2))
  show ?thesis by (simp add: trim_def 1 2)
qed

lemma matchFrom_Bos_later: "matchFrom (Bos # k) (Some q) s = None"
  by (induction s arbitrary: q) auto

lemma rgb_head_fails:
  assumes "map toLowerAscii (take 3 s) \<noteq> ''rgb''"
  shows "rmatch (Bos # Rep True 1 (Some 1) (NoCase CHR ''r'') # Rep True 1 (Some 1) (NoCase CHR ''g'')
      # Rep True 1 (Some 1) (NoCase CHR ''b'') # K) None s [] [] = None"
proof (cases s)
  case Nil
  then show ?thesis by simp
next
  case s1: (Cons x1 t1)
  show ?thesis
  proof (cases t1)
    case Nil
    then show ?thesis using s1 by (simp del: toLowerAscii.simps)
  next
    case s2: (Cons x2 t2)
    show ?thesis
    proof (cases t2)
      case Nil
      then show ?thesis using s1 s2 by (simp del: toLowerAscii.simps)
    next
      case s3: (Cons x3 t3)
      then show ?thesis using s1 s2 assms lower_rgb by (auto simp del: toLowerAscii.simps)
    qed
  qed
qed

lemma rgbToHex_unchanged:
  assumes "map toLowerAscii (take 3 (trim c)) \<noteq> ''rgb''"
  shows "rgbToHex c = c"
proof -
  have "rmatch rgbPattern None (trim c) [] [] = None"
    unfolding rgbPattern_def using rgb_head_fails [OF assms] by simp
  then have "matchRx rgbPattern (trim c) = None"
    by (cases "trim c") (auto simp: matchRx_def rgbPattern_def matchFrom_Bos_later)
  then show ?thesis by (simp add: rgbToHex_def)
qed

lemma hexPair_shape:
  assumes "v \<le> 255"
  shows "length (hexPair v) = 2 \<and> list_all isHexDigit (hexPair v) \<and> readNat 16 (hexPair v) = v"
proof -
  have "v div 16 < 16" and "v mod 16 < 16" using assms by simp_all
  then show ?thesis
    by (simp add: hexPair_def isHexDigit_digitChar readNat_def digitVal_digitChar)
qed

lemma rgb_head_any:
  assumes "map toLowerAscii h = ''rgb'' \<or> map toLowerAscii h = ''rgba''"
    and "rmatch K (Some CHR ''('') X [] [] = Some res"
  shows "rmatch (Bos # Rep True 1 (Some 1) (NoCase CHR ''r'') # Rep True 1 (Some 1) (NoCase CHR ''g'')
      # Rep True 1 (Some 1) (NoCase CHR ''b'') # Rep True 0 (Some 1) (NoCase CHR ''a'') # Lit ''('' # K)
      None (h @ ''('' @ X) [] [] = Some res"
  using assms(1)
proof
  assume "map toLowerAscii h = ''rgb''"
  then obtain x1 x2 x3 where h: "h = [x1, x2, x3]"
    and x: "toLowerAscii x1 = CHR ''r''" "toLowerAscii x2 = CHR ''g''" "toLowerAscii x3 = CHR ''b''"
    by (auto simp del: toLowerAscii.simps simp: map_eq_Cons_conv)
  show ?thesis unfolding h using x assms(2) lower_rgb by (simp del: toLowerAscii.simps)
next
  assume "map toLowerAscii h = ''rgba''"
  then obtain x1 x2 x3 x4 where h: "h = [x1, x2, x3, x4]"
    and x: "toLowerAscii x1 = CHR ''r''" "toLowerAscii x2 = CHR ''g''" "toLowerAscii x3 = CHR ''b''"
      "toLowerAscii x4 = CHR ''a''"
    by (auto simp del: toLowerAscii.simps simp: map_eq_Cons_conv)
  show ?thesis unfolding h using x assms(2) lower_rgb by (simp del: toLowerAscii.simps)
qed

lemma hd_not_digit:
  assumes "list_all isSpace w"
  shows "w @ '','' @ s = [] \<or> \<not> isDigit (hd (w @ '','' @ s))"
  using assms by (cases w) (auto simp: isDigit_def isSpace_def)

lemma hd_not_space:
  assumes "list_all isDigit d" and "d \<noteq> []"
  shows "d @ s = [] \<or> \<not> isSpace (hd (d @ s))"
  using assms by (cases d) (auto simp: digit_not_space)

lemma comma_step:
  assumes "list_all isSpace w" and "rmatch k (Some CHR '','') s os cs = Some res"
  shows "rmatch (Rep True 0 None Space # Lit '','' # k) p (w @ '','' @ s) os cs = Some res"
proof (rule spaces_skip [OF assms(1)])
  show "'','' @ s = [] \<or> \<not> isSpace (hd ('','' @ s))" by (simp add: isSpace_def)
  show "rmatch (Lit '','' # k) (lastOr p w) ('','' @ s) os cs = Some res"
    using assms(2) by simp
qed

lemma number_step:
  assumes "list_all isSpace w" and "list_all isDigit d" and "d \<noteq> []"
    and "rest = [] \<or> \<not> isDigit (hd rest)"
    and "rmatch k (Some (last d)) rest os (cs @ [d]) = Some res"
  shows "rmatch (Rep True 0 None Space # Open # Rep True 1 None Digit # Close # k) p (w @ d @ rest) os cs = Some res"
proof (rule spaces_skip [OF assms(1)])
  show "d @ rest = [] \<or> \<not> isSpace (hd (d @ rest))" using assms(2,3) by (rule hd_not_space)
  show "rmatch (Open # Rep True 1 None Digit # Close # k) (lastOr p w) (d @ rest) os cs = Some res"
    using assms(2-5) by (rule digits_group)
qed

lemma rgb_components_any:
  assumes "list_all isSpace w1" "list_all isDigit R" "R \<noteq> []" "list_all isSpace w2"
    and "list_all isSpace w3" "list_all isDigit G" "G \<noteq> []" "list_all isSpace w4"
    and "list_all isSpace w5" "list_all isDigit B" "B \<noteq> []"
    and "rest = [] \<or> \<not> isDigit (hd rest)"
  shows "rmatch rgbComponents p (w1 @ R @ w2 @ '','' @ w3 @ G @ w4 @ '','' @ w5 @ B @ rest) [] []
    = Some ([R, G, B], rest)"
proof -
  have b: "rmatch [Rep True 0 None Space, Open, Rep True 1 None Digit, Close] q (w5 @ B @ rest) [] [R, G]
      = Some ([R, G, B], rest)" for q
    using assms(9,10,11,12) by (rule number_step) simp
  have cb: "rmatch [Rep True 0 None Space, Lit '','', Rep True 0 None Space, Open, Rep True 1 None Digit, Close]
      q (w4 @ '','' @ w5 @ B @ rest) [] [R, G] = Some ([R, G, B], rest)" for q
    using assms(8) b by (rule comma_step)
  have g: "rmatch [Rep True 0 None Space, Open, Rep True 1 None Digit, Close,
        Rep True 0 None Space, Lit '','', Rep True 0 None Space, Open, Rep True 1 None Digit, Close]
      q (w3 @ G @ w4 @ '','' @ w5 @ B @ rest) [] [R] = Some ([R, G, B], rest)" for q
    using assms(5,6,7) hd_not_digit [OF assms(8), of "w5 @ B @ rest"]
    by (rule number_step) (use cb in simp)
  have cg: "rmatch [Rep True 0 None Space, Lit '','',
        Rep True 0 None Space, Open, Rep True 1 None Digit, Close,
        Rep True 0 None Space, Lit '','', Rep True 0 None Space, Open, Rep True 1 None Digit, Close]
      q (w2 @ '','' @ w3 @ G @ w4 @ '','' @ w5 @ B @ rest) [] [R] = Some ([R, G, B], rest)" for q
    using assms(4) g by (rule comma_step)
  show ?thesis
    unfolding rgbComponents_def
    using assms(1,2,3) hd_not_digit [OF assms(4), of "w3 @ G @ w4 @ '','' @ w5 @ B @ rest"]
    by (rule number_step) (use cg in simp)
qed

lemma rgbToHex_form:
  assumes "map toLowerAscii h = ''rgb'' \<or> map toLowerAscii h = ''rgba''"
    and "list_all isSpace w1" "list_all isDigit R" "R \<noteq> []" "list_all isSpace w2"
    and "list_all isSpace w3" "list_all isDigit G" "G \<noteq> []" "list_all isSpace w4"
    and "list_all isSpace w5" "list_all isDigit B" "B \<noteq> []"
    and "rest = [] \<or> \<not> isDigit (hd rest)"
    and "trim c = h @ ''('' @ w1 @ R @ w2 @ '','' @ w3 @ G @ w4 @ '','' @ w5 @ B @ rest"
  shows "rgbToHex c = ''#'' @ hexPair (min 255 (readNat 10 R)) @ hexPair (min 255 (readNat 10 G))
      @ hexPair (min 255 (readNat 10 B))"
proof -
  let ?X = "w1 @ R @ w2 @ '','' @ w3 @ G @ w4 @ '','' @ w5 @ B @ rest"
  have comps: "rmatch rgbComponents (Some CHR ''('') ?X [] [] = Some ([R, G, B], rest)"
    using assms(2-13) by (rule rgb_components_any)
  have m: "rmatch rgbPattern None (trim c) [] [] = Some ([R, G, B], rest)"
    unfolding assms(14) rgbPattern_def using rgb_head_any [OF assms(1) comps] by simp
  have "trim c \<noteq> []" unfolding assms(14) by simp
  then have "matchRx rgbPattern (trim c) = Some [R, G, B]"
    using m by (cases "trim c") (auto simp: matchRx_def)
  then show ?thesis
    by (simp add: rgbToHex_def grp_def toHex_digits hexPair_def)
qed

lemma color_emitted:
  assumes "\<not> classListContains (Element tag attrs st v cs) ''math-block''"
    and "\<not> classListContains (Element tag attrs st v cs) ''math-inline''"
    and "toLowerCase tag \<notin> set [''pre'', ''code'', ''li'', ''br'', ''div'', ''p'']"
    and "joinResults (map traverse cs) = Inr cc"
    and "color st \<noteq> []" and "color st \<noteq> ''inherit''" and "\<not> str_includes (color st) ''black''"
  shows "traverse (Element tag attrs st v cs)
    = Inr (fst (alignStep st ([], [])) @ BS # ''textcolor{'' @ rgbToHex (color st) @ ''}{''
        @ fst (sizeStep st (familyStep st (bgStep st ([], []))))
        @ emitTag (Element tag attrs st v cs) [] [] cc
        @ snd (sizeStep st (familyStep st (bgStep st ([], [])))) @ ''}'' @ snd (alignStep st ([], [])))"
proof -
  have "styleWrap st
    = (fst (alignStep st ([], [])) @ BS # ''textcolor{'' @ rgbToHex (color st) @ ''}{''
        @ fst (sizeStep st (familyStep st (bgStep st ([], [])))),
       snd (sizeStep st (familyStep st (bgStep st ([], [])))) @ ''}'' @ snd (alignStep st ([], [])))"
    using assms(5-7) by (simp add: styleWrap_def sizeStep_def familyStep_def alignStep_def bgStep_def colorStep_def)
  then show ?thesis using traverse_wrapper [OF assms(1-4)] by simp
qed

lemma background_emitted:
  assumes "\<not> classListContains (Element tag attrs st v cs) ''math-block''"
    and "\<not> classListContains (Element tag attrs st v cs) ''math-inline''"
    and "toLowerCase tag \<notin> set [''pre'', ''code'', ''li'', ''br'', ''div'', ''p'']"
    and "joinResults (map traverse cs) = Inr cc"
    and "backgroundColor st \<noteq> []" and "backgroundColor st \<noteq> ''inherit''"
    and "\<not> str_includes (backgroundColor st) ''rgba(0, 0, 0, 0)''"
  shows "traverse (Element tag attrs st v cs)
    = Inr (fst (alignStep st (colorStep st ([], []))) @ BS # ''colorbox{'' @ rgbToHex (backgroundColor st) @ ''}{''
        @ fst (sizeStep st (familyStep st ([], [])))
        @ emitTag (Element tag attrs st v cs) [] [] cc
        @ snd (sizeStep st (familyStep st ([], []))) @ ''}'' @ snd (alignStep st (colorStep st ([], []))))"
proof -
  have "styleWrap st
    = (fst (alignStep st (colorStep st ([], []))) @ BS # ''colorbox{'' @ rgbToHex (backgroundColor st) @ ''}{''
        @ fst (sizeStep st (familyStep st ([], []))),
       snd (sizeStep st (familyStep st ([], []))) @ ''}'' @ snd (alignStep st (colorStep st ([], []))))"
    using assms(5-7) by (simp add: styleWrap_def sizeStep_def familyStep_def alignStep_def bgStep_def colorStep_def)
  then show ?thesis using traverse_wrapper [OF assms(1-4)] by simp
qed





section \<open>The final normalization of htmlToLatex\<close>

lemma str_includes_sublist: "str_includes s t \<longleftrightarrow> sublist t s"
  by (induction s) (auto simp: sublist_Cons_right)

lemma rmatch_greedy_only:
  "rmatch [Rep True mn None c] p s os cs =
     (if mn \<le> length (takeWhile (inClass c) s) then Some (cs, dropWhile (inClass c) s) else None)"
proof (induction s arbitrary: mn p)
  case Nil
  then show ?case by simp
next
  case (Cons x s)
  show ?case by (cases mn) (simp_all add: Cons Let_def)
qed



lemma inClass_Only: "inClass (Only c) = (\<lambda>x. x = c)"
  by (rule ext) simp

lemma scan_collapse_Cons:
  "scan [Rep True 3 None (Only NL)] p (c # s) =
     (if 3 \<le> lead (c # s)
      then Hit [] # scan [Rep True 3 None (Only NL)]
                      (lastOr p (take (Suc (length s) - length (dropWhile (\<lambda>x. x = NL) (c # s))) (c # s)))
                      (dropWhile (\<lambda>x. x = NL) (c # s))
      else Keep c # scan [Rep True 3 None (Only NL)] (Some c) s)"
proof -
  have "length (dropWhile (\<lambda>x. x = NL) s) \<le> length s" by (rule length_dropWhile_le)
  then show ?thesis
    by (simp only: scan.simps rmatch_greedy_only inClass_Only) (auto simp: le_Suc_eq)
qed


lemma outNL_Nil: "outNL p [] = []"
  by (simp add: outNL_def rmatch_greedy_only)

lemma outNL_Cons:
  "outNL p (c # s) =
     (if 3 \<le> lead (c # s) then [NL, NL] @ outNL (lastOr p (take (Suc (length s) - length (dropWhile (\<lambda>x. x = NL) (c # s))) (c # s))) (dropWhile (\<lambda>x. x = NL) (c # s))
      else c # outNL (Some c) s)"
  by (simp add: outNL_def scan_collapse_Cons del: scan.simps)

lemma outNL_indep: "outNL p s = outNL q s"
proof (induction s arbitrary: p q rule: length_induct)
  case (1 s)
  show ?case
  proof (cases s)
    case Nil
    then show ?thesis by (simp add: outNL_Nil)
  next
    case (Cons c t)
    have "length (dropWhile (\<lambda>x. x = NL) t) \<le> length t" by (rule length_dropWhile_le)
    then have d: "c = NL \<Longrightarrow> length (dropWhile (\<lambda>x. x = NL) (c # t)) < length s" using Cons by simp
    show ?thesis
    proof (cases "3 \<le> lead (c # t)")
      case True
      then have "c = NL" by (auto split: if_splits)
      with True d 1 Cons show ?thesis
        by (simp only: outNL_Cons if_True) blast
    next
      case False
      with 1 Cons show ?thesis by (simp only: outNL_Cons if_False)
    qed
  qed
qed

lemma collapseBlankLines_outNL: "collapseBlankLines s = outNL None s"
  by (simp add: collapseBlankLines_def replaceAll_def outNL_def)

lemma collapse_Nil: "collapseBlankLines [] = []"
  by (simp add: collapseBlankLines_outNL outNL_Nil)

lemma collapse_Cons:
  "collapseBlankLines (c # s) =
     (if 3 \<le> lead (c # s) then [NL, NL] @ collapseBlankLines (dropWhile (\<lambda>x. x = NL) (c # s))
      else c # collapseBlankLines s)"
  unfolding collapseBlankLines_outNL
  by (subst outNL_Cons) (metis outNL_indep)

lemma lead_dropWhile: "lead (dropWhile (\<lambda>x. x = NL) s) = 0"
  by (induction s) auto

lemma prefix2_lead: "prefix [NL, NL] t \<Longrightarrow> 2 \<le> lead t"
  by (cases t; cases "tl t") auto

lemma collapse_ne:
  assumes "s \<noteq> []"
  shows "collapseBlankLines s =
     (if 3 \<le> lead s then [NL, NL] @ collapseBlankLines (dropWhile (\<lambda>x. x = NL) s)
      else hd s # collapseBlankLines (tl s))"
proof -
  obtain c t where s: "s = c # t" using assms by (cases s) auto
  show ?thesis unfolding s by (subst collapse_Cons) simp
qed

lemma no3_Cons:
  assumes "\<not> sublist [NL, NL, NL] t" and "c \<noteq> NL \<or> lead t \<le> 1"
  shows "\<not> sublist [NL, NL, NL] (c # t)"
proof
  assume "sublist [NL, NL, NL] (c # t)"
  then have p: "prefix [NL, NL, NL] (c # t)" using assms(1) by (metis sublist_Cons_right)
  then have c: "c = NL" by simp
  have "prefix [NL, NL] t" using p unfolding c by simp
  then have "2 \<le> lead t" using prefix2_lead by blast
  with c assms(2) show False by linarith
qed

lemma lead_Cons: "lead (c # t) = (if c = NL then Suc (lead t) else 0)"
  by simp

lemma collapse_invariant:
  "\<not> sublist [NL, NL, NL] (collapseBlankLines s) \<and> lead (collapseBlankLines s) \<le> min 2 (lead s)"
proof (induction s rule: length_induct)
  case (1 s)
  show ?case
  proof (cases "s = []")
    case True
    then show ?thesis by (simp add: collapse_Nil)
  next
    case ne: False
    show ?thesis
    proof (cases "3 \<le> lead s")
      case True
      let ?r = "dropWhile (\<lambda>x. x = NL) s"
      let ?o = "collapseBlankLines ?r"
      have "length s = lead s + length ?r" by (metis length_append takeWhile_dropWhile_id)
      then have "length ?r < length s" using True by linarith
      with 1 have ih: "\<not> sublist [NL, NL, NL] ?o" "lead ?o \<le> min 2 (lead ?r)" by blast+
      have z: "lead ?o = 0" using ih(2) lead_dropWhile [of s] by simp
      have eq: "collapseBlankLines s = NL # NL # ?o"
        using collapse_ne [OF ne] True by (simp only: if_True append_Cons append_Nil)
      have a: "\<not> sublist [NL, NL, NL] (NL # ?o)" by (rule no3_Cons) (use ih(1) z in simp_all)
      have l1: "lead (NL # ?o) = 1" using z by (simp only: lead_Cons) simp
      have b: "\<not> sublist [NL, NL, NL] (NL # NL # ?o)" by (rule no3_Cons) (use a l1 in simp_all)
      have "lead (NL # NL # ?o) = 2" using z by (simp only: lead_Cons) simp
      then show ?thesis using b True by (simp only: eq) simp
    next
      case False
      let ?o = "collapseBlankLines (tl s)"
      have "length (tl s) < length s" using ne by (cases s) auto
      with 1 have ih: "\<not> sublist [NL, NL, NL] ?o" "lead ?o \<le> min 2 (lead (tl s))" by blast+
      have eq: "collapseBlankLines s = hd s # ?o"
        using collapse_ne [OF ne] False by (simp only: if_False)
      have s: "s = hd s # tl s" using ne by simp
      have ls: "lead s = (if hd s = NL then Suc (lead (tl s)) else 0)"
        by (subst s) (simp only: lead_Cons)
      show ?thesis
      proof (cases "hd s = NL")
        case True
        then have "lead (tl s) \<le> 1" using False ls by simp
        then have l: "lead ?o \<le> 1" using ih(2) by simp
        have "\<not> sublist [NL, NL, NL] (hd s # ?o)" by (rule no3_Cons) (use ih(1) l in simp_all)
        moreover have "lead (hd s # ?o) \<le> min 2 (lead s)"
          using True l ih(2) ls by (simp only: lead_Cons) simp
        ultimately show ?thesis by (simp only: eq) simp
      next
        case hd: False
        have "\<not> sublist [NL, NL, NL] (hd s # ?o)" by (rule no3_Cons) (use ih(1) hd in simp_all)
        moreover have "lead (hd s # ?o) = 0" using hd by (simp only: lead_Cons) simp
        ultimately show ?thesis by (simp only: eq) simp
      qed
    qed
  qed
qed

lemma lead_replicate:
  assumes "b = [] \<or> hd b \<noteq> NL"
  shows "takeWhile (\<lambda>x. x = NL) (replicate n NL @ b) = replicate n NL"
proof -
  have "takeWhile (\<lambda>x. x = NL) b = []" using assms by (cases b) auto
  moreover have "takeWhile (\<lambda>x. x = NL) (replicate n NL @ b) = replicate n NL @ takeWhile (\<lambda>x. x = NL) b"
    by (rule takeWhile_append2) simp
  ultimately show ?thesis by simp
qed

lemma collapse_run:
  assumes "3 \<le> n" and "a = [] \<or> last a \<noteq> NL" and "b = [] \<or> hd b \<noteq> NL"
  shows "collapseBlankLines (a @ replicate n NL @ b)
    = collapseBlankLines a @ [NL, NL] @ collapseBlankLines b"
  using assms(2)
proof (induction a rule: length_induct)
  case (1 a)
  let ?M = "replicate n NL @ b"
  have twM: "takeWhile (\<lambda>x. x = NL) ?M = replicate n NL"
    by (rule lead_replicate [OF assms(3)])
  have dropM: "dropWhile (\<lambda>x. x = NL) ?M = b"
  proof -
    have "dropWhile (\<lambda>x. x = NL) b = b" using assms(3) by (cases b) auto
    moreover have "dropWhile (\<lambda>x. x = NL) (replicate n NL @ b) = dropWhile (\<lambda>x. x = NL) b"
      by (rule dropWhile_append2) simp
    ultimately show ?thesis by simp
  qed
  have M_ne: "?M \<noteq> []" using assms(1) by auto
  show ?case
  proof (cases "a = []")
    case True
    have "collapseBlankLines ?M = [NL, NL] @ collapseBlankLines b"
      using collapse_ne [OF M_ne] assms(1) by (simp only: twM dropM length_replicate if_True)
    then show ?thesis using True by (simp add: collapse_Nil)
  next
    case False
    then have last_a: "last a \<noteq> NL" using 1(2) by auto
    have mem: "last a \<in> set a" using False by (rule last_in_set)
    have ex: "\<exists>x\<in>set a. x \<noteq> NL" using mem last_a by blast
    have tw: "takeWhile (\<lambda>x. x = NL) (a @ ?M) = takeWhile (\<lambda>x. x = NL) a"
      by (rule takeWhile_append1 [OF mem]) (rule last_a)
    have dw: "dropWhile (\<lambda>x. x = NL) (a @ ?M) = dropWhile (\<lambda>x. x = NL) a @ ?M"
      by (rule dropWhile_append1 [OF mem]) (rule last_a)
    have aM_ne: "a @ ?M \<noteq> []" using False by simp
    have hd_aM: "hd (a @ ?M) = hd a" and tl_aM: "tl (a @ ?M) = tl a @ ?M" using False by simp_all
    show ?thesis
    proof (cases "3 \<le> lead a")
      case True
      let ?d = "dropWhile (\<lambda>x. x = NL) a"
      have d_ne: "?d \<noteq> []" using ex by (auto simp: dropWhile_eq_Nil_conv)
      have "suffix ?d a" by (rule suffix_dropWhile)
      then obtain zs where "a = zs @ ?d" by (auto simp: suffix_def)
      then have "last a = last (zs @ ?d)" by simp
      also have "\<dots> = last ?d" using d_ne by (rule last_appendR)
      finally have "last ?d \<noteq> NL" using last_a by simp
      moreover have "length ?d < length a"
      proof -
        have "takeWhile (\<lambda>x. x = NL) a \<noteq> []" using True by auto
        then have "0 < lead a" by simp
        moreover have "length a = lead a + length ?d"
          by (metis length_append takeWhile_dropWhile_id)
        ultimately show ?thesis by simp
      qed
      ultimately have ih: "collapseBlankLines (?d @ ?M) = collapseBlankLines ?d @ [NL, NL] @ collapseBlankLines b"
        using 1(1) by blast
      have "collapseBlankLines (a @ ?M) = [NL, NL] @ collapseBlankLines (?d @ ?M)"
        using collapse_ne [OF aM_ne] True by (simp only: tw dw if_True)
      moreover have "collapseBlankLines a = [NL, NL] @ collapseBlankLines ?d"
        using collapse_ne [OF False] True by (simp only: if_True)
      ultimately show ?thesis using ih by simp
    next
      case notrun: False
      have 2: "collapseBlankLines (a @ ?M) = hd a # collapseBlankLines (tl a @ ?M)"
        using collapse_ne [OF aM_ne] notrun by (simp only: tw hd_aM tl_aM if_False)
      have 3: "collapseBlankLines a = hd a # collapseBlankLines (tl a)"
        using collapse_ne [OF False] notrun by (simp only: if_False)
      have "tl a = [] \<or> last (tl a) \<noteq> NL" using last_a False by (cases a) (auto split: if_splits)
      moreover have "length (tl a) < length a" using False by (cases a) auto
      ultimately have "collapseBlankLines (tl a @ ?M) = collapseBlankLines (tl a) @ [NL, NL] @ collapseBlankLines b"
        using 1(1) by blast
      then show ?thesis using 2 3 by simp
    qed
  qed
qed

lemma trim_sublist: "sublist (trim s) s"
proof -
  have "suffix (dropWhile isSpace (rev (dropWhile isSpace s))) (rev (dropWhile isSpace s))"
    by (rule suffix_dropWhile)
  then have "prefix (trim s) (dropWhile isSpace s)"
    by (simp add: trim_def suffix_to_prefix)
  moreover have "suffix (dropWhile isSpace s) s" by (rule suffix_dropWhile)
  ultimately show ?thesis
    by (meson prefix_imp_sublist suffix_imp_sublist sublist_order.order.trans)
qed

lemma trim_ends:
  assumes "trim s \<noteq> []"
  shows "\<not> isSpace (hd (trim s)) \<and> \<not> isSpace (last (trim s))"
proof -
  let ?t = "dropWhile isSpace s"
  let ?u = "dropWhile isSpace (rev ?t)"
  have u: "?u \<noteq> []" using assms by (simp add: trim_def)
  from u have "rev ?t \<noteq> []" by (metis dropWhile.simps(1))
  then have t: "?t \<noteq> []" by (metis rev.simps(1))
  have 1: "\<not> isSpace (hd ?u)" using u by (rule hd_dropWhile)
  have "suffix ?u (rev ?t)" by (rule suffix_dropWhile)
  then obtain zs where "rev ?t = zs @ ?u" by (auto simp: suffix_def)
  then have "last (rev ?t) = last ?u" using u by (metis last_appendR)
  then have "last ?u = last (rev ?t)" by simp
  then have "last ?u = hd ?t" using t by (simp add: last_rev)
  moreover have "\<not> isSpace (hd ?t)" using t by (rule hd_dropWhile)
  ultimately have 2: "\<not> isSpace (last ?u)" by simp
  show ?thesis using 1 2 u by (simp add: trim_def hd_rev last_rev)
qed

text \<open>
  C8, as amended. Whatever \<open>htmlToLatex\<close> returns has gone through the final step. For a
  non-empty input it is the emitted text with every run of three or more newline characters
  replaced and then trimmed; a run of three or more newline characters between two other
  characters is replaced by exactly two, that is one empty line. So the result holds no
  three newline characters in a row, never two or more consecutive empty lines, and it
  neither starts nor ends with a whitespace character. The replacement looks at newline
  characters only: lines that hold other whitespace are left as they are.
\<close>

theorem htmlToLatex_normalized:
  assumes "htmlToLatex parse html = Inr r"
  shows "\<not> str_includes r [NL, NL, NL]
    \<and> (r \<noteq> [] \<longrightarrow> \<not> isSpace (hd r) \<and> \<not> isSpace (last r))
    \<and> (html \<noteq> [] \<longrightarrow>
          (\<exists>out. joinResults (map traverse (parse html)) = Inr out \<and> r = trim (collapseBlankLines out)))
    \<and> (\<forall>a b n. 3 \<le> n \<and> (a = [] \<or> last a \<noteq> NL) \<and> (b = [] \<or> hd b \<noteq> NL)
          \<longrightarrow> collapseBlankLines (a @ replicate n NL @ b)
              = collapseBlankLines a @ [NL, NL] @ collapseBlankLines b)"
proof -
  have shape: "r = [] \<or> (\<exists>out. joinResults (map traverse (parse html)) = Inr out \<and> r = trim (collapseBlankLines out))"
    using assms by (auto simp: htmlToLatex_def normalize_def split: if_splits sum.splits)
  have no3: "\<not> str_includes r [NL, NL, NL]"
  proof (cases "r = []")
    case True
    then show ?thesis by simp
  next
    case False
    then obtain out where r: "r = trim (collapseBlankLines out)" using shape by blast
    have "\<not> sublist [NL, NL, NL] (collapseBlankLines out)" using collapse_invariant by blast
    moreover have "sublist r (collapseBlankLines out)" unfolding r by (rule trim_sublist)
    ultimately have "\<not> sublist [NL, NL, NL] r" using sublist_order.order.trans by blast
    then show ?thesis by (simp add: str_includes_sublist)
  qed
  have ends: "r \<noteq> [] \<longrightarrow> \<not> isSpace (hd r) \<and> \<not> isSpace (last r)"
    using shape trim_ends by blast
  have fin: "html \<noteq> [] \<longrightarrow>
          (\<exists>out. joinResults (map traverse (parse html)) = Inr out \<and> r = trim (collapseBlankLines out))"
    using assms by (auto simp: htmlToLatex_def normalize_def split: if_splits sum.splits)
  show ?thesis using no3 ends fin collapse_run by blast
qed

theorem htmlToLatex_normalized_witness:
  \<open>joinResults (map traverse [Element ''DIV'' [] noStyle [] [TextNode ''a''],
                                   Element ''DIV'' [] noStyle [] [TextNode ''b'']])
       = Inr ''\<newline>\<newline>a\<newline>\<newline>\<newline>\<newline>b\<newline>\<newline>''
   \<and> htmlToLatex (\<lambda>html. [Element ''DIV'' [] noStyle [] [TextNode ''a''],
                          Element ''DIV'' [] noStyle [] [TextNode ''b'']])
      ''<div>a</div><div>b</div>'' = Inr ''a\<newline>\<newline>b''
   \<and> \<not> str_includes ''a\<newline>\<newline>b'' [NL, NL, NL]
   \<and> \<not> isSpace (hd ''a\<newline>\<newline>b'') \<and> \<not> isSpace (last ''a\<newline>\<newline>b'')
   \<and> collapseBlankLines (''a'' @ replicate 4 NL @ ''b'') = collapseBlankLines ''a'' @ [NL, NL] @ collapseBlankLines ''b''\<close>
proof -
  have e: \<open>htmlToLatex (\<lambda>html. [Element ''DIV'' [] noStyle [] [TextNode ''a''],
                          Element ''DIV'' [] noStyle [] [TextNode ''b'']])
      ''<div>a</div><div>b</div>'' = Inr ''a\<newline>\<newline>b''\<close>
    by code_simp
  have raw: \<open>joinResults (map traverse [Element ''DIV'' [] noStyle [] [TextNode ''a''],
                                   Element ''DIV'' [] noStyle [] [TextNode ''b'']])
       = Inr ''\<newline>\<newline>a\<newline>\<newline>\<newline>\<newline>b\<newline>\<newline>''\<close>
    by code_simp
  have side: \<open>(3::nat) \<le> 4 \<and> (''a'' = [] \<or> last ''a'' \<noteq> NL) \<and> (''b'' = [] \<or> hd ''b'' \<noteq> NL)\<close>
    by simp
  have ne: \<open>''a\<newline>\<newline>b'' \<noteq> []\<close> by simp
  from htmlToLatex_normalized [OF e] side ne
  have \<open>\<not> str_includes ''a\<newline>\<newline>b'' [NL, NL, NL]
   \<and> \<not> isSpace (hd ''a\<newline>\<newline>b'') \<and> \<not> isSpace (last ''a\<newline>\<newline>b'')
   \<and> collapseBlankLines (''a'' @ replicate 4 NL @ ''b'') = collapseBlankLines ''a'' @ [NL, NL] @ collapseBlankLines ''b''\<close>
    by blast
  then show ?thesis using e raw by blast
qed

text \<open>
  The claim C8 as stated, a result that never holds three or more consecutive blank lines,
  fails when a line between two empty lines holds a space. The forward compiler turns the
  newline between two centred environments into a space between two \<open>div\<close> elements;
  backward, each \<open>div\<close> puts two newlines on either side of its content and the text
  node gives the space back, so that the result holds, between \<open>a\<close> and \<open>b\<close>, an empty
  line, a line holding one space and another empty line.
\<close>

theorem htmlToLatex_blank_lines_counterexample:
  \<open>latexToHtml None (BS # ''begin{center}a'' @ BS # ''end{center}\<newline>'' @ BS # ''begin{center}b'' @ BS # ''end{center}'')
     = ''<div style="text-align: center">a</div> <div style="text-align: center">b</div>''
   \<and> htmlToLatex
        (\<lambda>html. [Element ''DIV'' [(''style'', ''text-align: center'')] (noStyle\<lparr>textAlign := ''center''\<rparr>) []
                   [TextNode ''a''],
                 TextNode '' '',
                 Element ''DIV'' [(''style'', ''text-align: center'')] (noStyle\<lparr>textAlign := ''center''\<rparr>) []
                   [TextNode ''b'']])
        ''<div style="text-align: center">a</div> <div style="text-align: center">b</div>''
     = Inr ''a\<newline>\<newline> \<newline>\<newline>b''\<close>
  by code_simp

section \<open>Markup that no rule matches\<close>

lemma literals_append: "literals (a @ k) = literals a @ literals k"
  by (induction a rule: literals.induct) auto

lemma not_sublist_drop: "\<not> sublist l s \<Longrightarrow> \<not> sublist l (drop n s)"
  by (meson sublist_drop sublist_order.order.trans)

lemma not_sublist_tl: "\<not> sublist l (x # s) \<Longrightarrow> \<not> sublist l s"
  by (simp add: sublist_Cons_right)

lemma rmatch_missing_literal:
  "l \<in> set (literals r) \<Longrightarrow> \<not> sublist l s \<Longrightarrow> rmatch r p s os cs = None"
proof (induction r p s os cs rule: rmatch.induct)
  case (1 p s os cs)
  then show ?case by simp
next
  case (2 l' k p s os cs)
  show ?case
  proof (cases "prefix l' s")
    case True
    then have "l \<noteq> l'" using 2(3) prefix_imp_sublist by blast
    then have "l \<in> set (literals k)" using 2(2) by simp
    moreover have "\<not> sublist l (drop (length l') s)" using 2(3) by (rule not_sublist_drop)
    ultimately show ?thesis using 2(1) True by simp
  next
    case False
    then show ?thesis by simp
  qed
next
  case (3 greedy mn mx c k p s os cs)
  have k: "l \<in> set (literals k)" using 3(5) by simp
  let ?more = "case s of [] \<Rightarrow> None
                  | x # xs \<Rightarrow> if inClass c x
                      then rmatch (Rep greedy (mn - 1) (map_option (\<lambda>m. m - 1) mx) c # k) (Some x) xs os cs
                      else None"
  have more: "?more = None"
  proof (cases s)
    case Nil
    then show ?thesis by simp
  next
    case (Cons x xs)
    have "\<not> sublist l xs" using 3(6) unfolding Cons by (rule not_sublist_tl)
    then have "inClass c x \<Longrightarrow>
        rmatch (Rep greedy (mn - 1) (map_option (\<lambda>m. m - 1) mx) c # k) (Some x) xs os cs = None"
      using 3(1) [OF Cons] k by simp
    then show ?thesis using Cons by simp
  qed
  have rest: "\<not> 0 < mn \<Longrightarrow> rmatch k p s os cs = None"
  proof -
    assume z: "\<not> 0 < mn"
    show ?thesis
    proof (cases "mx = Some 0")
      case True
      then show ?thesis using 3(2) z k 3(6) by simp
    next
      case nz: False
      show ?thesis
      proof (cases greedy)
        case True
        then show ?thesis using 3(3) [OF refl z nz True more] k 3(6) by simp
      next
        case False
        then show ?thesis using 3(4) [OF refl z nz False] k 3(6) by simp
      qed
    qed
  qed
  have unfold: "rmatch (Rep greedy mn mx c # k) p s os cs =
      (let more = ?more
       in if 0 < mn then more
       else if mx = Some 0 then rmatch k p s os cs
       else if greedy then (case more of Some r \<Rightarrow> Some r | None \<Rightarrow> rmatch k p s os cs)
       else (case rmatch k p s os cs of Some r \<Rightarrow> Some r | None \<Rightarrow> more))"
    by (rule rmatch.simps(3))
  show ?case
  proof (cases "0 < mn")
    case True
    then show ?thesis unfolding unfold more Let_def by simp
  next
    case False
    from rest [OF False] show ?thesis
      unfolding unfold more Let_def by simp
  qed
next
  case (4 k p s os cs)
  then show ?case by simp
next
  case (5 k p s os cs)
  then show ?case by (cases os) auto
next
  case (6 a b k p s os cs)
  then show ?case by (simp add: literals_append)
next
  case (7 a k p s os cs)
  then show ?case by (auto split: option.splits)
next
  case (8 x k p s os cs)
  then show ?case by simp
next
  case (9 k p s os cs)
  then show ?case by simp
next
  case (10 k p s os cs)
  then show ?case by simp
qed

lemma scan_missing_literal:
  "l \<in> set (literals r) \<Longrightarrow> \<not> sublist l s \<Longrightarrow> scan r p s = map Keep s"
proof (induction s arbitrary: p)
  case Nil
  then show ?case by (simp add: rmatch_missing_literal)
next
  case (Cons c s)
  from Cons.prems(2) have "\<not> sublist l s" by (rule not_sublist_tl)
  then show ?case using Cons by (simp add: rmatch_missing_literal)
qed

lemma emit_Keep: "concat (map (emit f) (map Keep s)) = s"
  by (induction s) auto

lemma emit_Keep_comp: "concat (map (emit f \<circ> Keep) s) = s"
  by (induction s) auto

lemma emitSt_Keep: "emitSt f (map Keep s) st = (s, st)"
  by (induction s) auto

lemma replaceAll_missing_literal:
  "l \<in> set (literals r) \<Longrightarrow> \<not> sublist l s \<Longrightarrow> replaceAll r f s = s"
  by (simp add: replaceAll_def scan_missing_literal emit_Keep_comp)

lemma replaceAllSt_missing_literal:
  "l \<in> set (literals r) \<Longrightarrow> \<not> sublist l s \<Longrightarrow> replaceAllSt r f (s, st) = (s, st)"
  by (simp add: replaceAllSt_def scan_missing_literal emitSt_Keep)

lemma matchFrom_missing_literal:
  "l \<in> set (literals r) \<Longrightarrow> \<not> sublist l s \<Longrightarrow> matchFrom r p s = None"
proof (induction s arbitrary: p)
  case Nil
  then show ?case by (simp add: rmatch_missing_literal)
next
  case (Cons c s)
  from Cons.prems(2) have "\<not> sublist l s" by (rule not_sublist_tl)
  then show ?case using Cons by (simp add: rmatch_missing_literal)
qed

lemma blockedD: "blocked s r \<Longrightarrow> \<exists>l. l \<in> set (literals r) \<and> \<not> sublist l s"
  by (auto simp: blocked_def list_ex_iff str_includes_sublist)

lemma applyRules_blocked:
  "list_all (blocked s) (map fst rules) \<Longrightarrow> applyRules rules s = s"
proof (induction rules)
  case Nil
  then show ?case by (simp add: applyRules_def)
next
  case (Cons rule rules)
  obtain r f where rule: "rule = (r, f)" by (cases rule)
  have "blocked s r" using Cons.prems rule by simp
  then obtain l where "l \<in> set (literals r)" "\<not> sublist l s" using blockedD by blast
  then have "replaceAll r f s = s" by (rule replaceAll_missing_literal)
  moreover have "applyRules rules s = s" using Cons by simp
  ultimately show ?case by (simp add: applyRules_def rule)
qed

lemma protect_rules_blocked:
  "list_all (blocked s) (map fst rules) \<Longrightarrow>
   foldl (\<lambda>y (r, f). replaceAllSt r (\<lambda>g. protect (f g)) y) (s, st) rules = (s, st)"
proof (induction rules)
  case Nil
  then show ?case by simp
next
  case (Cons rule rules)
  obtain r f where rule: "rule = (r, f)" by (cases rule)
  have "blocked s r" using Cons.prems rule by simp
  then obtain l where "l \<in> set (literals r)" "\<not> sublist l s" using blockedD by blast
  then have "replaceAllSt r (\<lambda>g. protect (f g)) (s, st) = (s, st)" by (rule replaceAllSt_missing_literal)
  then show ?case using Cons by (simp add: rule)
qed

lemma protectRules_patterns: "map fst (protectRules katex) = map fst (protectRules None)"
  by (simp add: protectRules_def)







section \<open>The canonical source of a math node\<close>

subsection \<open>Decoding what was encoded\<close>

text \<open>
  \<open>encodeURIComponent\<close> writes every code unit either as itself or as one or two
  percent-escaped bytes, and \<open>decodeURIComponent\<close> reads each of them back.
\<close>

lemma upperHex_table:
  \<open>map upperHex [0, 1, 2, 3, 4, 5, 6, 7, 8, 9, 10, 11, 12, 13, 14, 15] = ''0123456789ABCDEF''\<close>
  by code_simp

lemma digitVal_upper_table:
  \<open>map digitVal ''0123456789ABCDEF'' = [0, 1, 2, 3, 4, 5, 6, 7, 8, 9, 10, 11, 12, 13, 14, 15]\<close>
  by code_simp

lemma hex_upper_table: \<open>list_all isHexDigit ''0123456789ABCDEF''\<close>
  by code_simp

lemma digitVal_upperHex:
  assumes "k < 16" shows "digitVal (upperHex k) = k \<and> isHexDigit (upperHex k)"
  using lt16_cases [OF assms] upperHex_table digitVal_upper_table hex_upper_table
  by (elim disjE) simp_all

lemma hexByte_pct:
  assumes "b < 256"
  shows "hexByte (pct b @ s) = Some (b, s)"
proof -
  have "b div 16 < 16" and "b mod 16 < 16" using assms by simp_all
  then show ?thesis
    using digitVal_upperHex [of "b div 16"] digitVal_upperHex [of "b mod 16"]
    by (simp add: pct_def)
qed

lemma percent_reserved: \<open>\<not> isUnreserved CHR ''%''\<close>
  by code_simp

lemma consChar_of_char:
  "consChar (of_char c) r = (case r of Inl e \<Rightarrow> Inl e | Inr s \<Rightarrow> Inr (c # s))"
  by (cases r) (auto simp: consChar_def)

lemma decode_encodeChar:
  "decodeURIComponent (encodeChar c @ s) =
     (case decodeURIComponent s of Inl e \<Rightarrow> Inl e | Inr r \<Rightarrow> Inr (c # r))"
proof -
  let ?n = "of_char c :: nat"
  have n: "?n < 256" by simp
  consider (u) "isUnreserved c" | (a) "\<not> isUnreserved c" "?n < 128" | (w) "\<not> isUnreserved c" "128 \<le> ?n"
    by linarith
  then show ?thesis
  proof cases
    case u
    then have "c \<noteq> CHR ''%''" using percent_reserved by auto
    then show ?thesis using u by (simp add: encodeChar_def consChar_of_char)
  next
    case a
    have p: "pct ?n @ s = CHR ''%'' # upperHex (?n div 16) # upperHex (?n mod 16) # s"
      by (simp add: pct_def)
    have h: "hexByte (CHR ''%'' # upperHex (?n div 16) # upperHex (?n mod 16) # s) = Some (?n, s)"
      using hexByte_pct [OF n, of s] by (simp only: p)
    show ?thesis using a
      by (simp add: encodeChar_def p h consChar_of_char del: hexByte.simps)
  next
    case w
    let ?b1 = "192 + ?n div 64" and ?b2 = "128 + ?n mod 64"
    have "?n < 4 * 64" using n by simp
    then have q: "?n div 64 < 4" by (rule less_mult_imp_div_less)
    have b1: "?b1 < 256" "192 \<le> ?b1" "?b1 < 224" using q by simp_all
    have b2: "?b2 < 256" "128 \<le> ?b2" "?b2 < 192" by simp_all
    let ?t = "pct ?b2 @ s"
    have p: "pct ?b1 @ ?t = CHR ''%'' # upperHex (?b1 div 16) # upperHex (?b1 mod 16) # ?t"
      by (simp add: pct_def)
    have h1: "hexByte (CHR ''%'' # upperHex (?b1 div 16) # upperHex (?b1 mod 16) # ?t) = Some (?b1, ?t)"
      using hexByte_pct [OF b1(1), of ?t] by (simp only: p)
    have h2: "hexByte ?t = Some (?b2, s)" using hexByte_pct [OF b2(1)] .
    have cont: "continuations 1 (?b1 mod 32) ?t = Some (?n, s)"
    proof -
      have "(6 * 32 + ?n div 64) mod 32 = (?n div 64) mod 32" by (rule mod_mult_self3)
      then have "?b1 mod 32 = ?n div 64" using q by simp
      moreover have "64 * (?n div 64) + ?n mod 64 = ?n" by simp
      ultimately show ?thesis using h2 b2 by (simp del: hexByte.simps)
    qed
    have len: "drop 5 (upperHex (?b1 div 16) # upperHex (?b1 mod 16) # ?t) = s"
      by (simp add: pct_def)
    have v: "validCodePoint 2 ?n" using w by (simp add: validCodePoint_def)
    show ?thesis using w b1 cont v len
      by (simp add: encodeChar_def p h1 consChar_of_char Let_def del: hexByte.simps continuations.simps)
  qed
qed

lemma decode_encode: "decodeURIComponent (encodeURIComponent m) = Inr m"
  by (induction m) (simp_all add: encodeURIComponent_def decode_encodeChar)

subsection \<open>Backward: a math node gives back its stored source\<close>

lemma traverse_math_block:
  assumes n: "n = Element tag attrs st v cs"
    and cls: "classListContains n ''math-block''"
    and att: "getAttribute n ''data-latex'' = Some (encodeURIComponent m)"
    and qs: "querySelector (isTag ''textarea'') n = None"
  shows "traverse n
    = Inr (''\<newline>'' @ BS # ''[\<newline>'' @ m @ ''\<newline>'' @ BS # '']\<newline>'')"
proof -
  have ms: "mathSource n ''textarea'' = Inr m"
    unfolding mathSource_def by (simp only: att qs option.case decode_encode)
  show ?thesis
    apply (subst n)
    apply (subst traverse.simps(3))
    apply (simp only: Let_def n [symmetric])
    apply (simp only: cls ms if_True sum.case)
    done
qed

lemma traverse_math_inline:
  assumes n: "n = Element tag attrs st v cs"
    and ncls: "\<not> classListContains n ''math-block''"
    and cls: "classListContains n ''math-inline''"
    and att: "getAttribute n ''data-latex'' = Some (encodeURIComponent m)"
    and qs: "querySelector (isTag ''input'') n = None"
  shows "traverse n = Inr (''$'' @ m @ ''$'')"
proof -
  have ms: "mathSource n ''input'' = Inr m"
    unfolding mathSource_def by (simp only: att qs option.case decode_encode)
  show ?thesis
    apply (subst n)
    apply (subst traverse.simps(3))
    apply (simp only: Let_def n [symmetric])
    apply (simp only: cls ncls ms if_True if_False sum.case)
    done
qed

subsection \<open>Texts that do not hold a given literal\<close>

lemma not_sublist_Cons:
  "l \<noteq> [] \<Longrightarrow> hd l \<noteq> x \<Longrightarrow> \<not> sublist l s \<Longrightarrow> \<not> sublist l (x # s)"
  by (cases l) (auto simp: sublist_Cons_right)

lemma not_sublist_snoc:
  assumes "l \<noteq> []" and "last l \<noteq> x" and "\<not> sublist l s"
  shows "\<not> sublist l (s @ [x])"
proof
  assume "sublist l (s @ [x])"
  then obtain ps ss where e: "s @ [x] = ps @ l @ ss" by (auto simp: sublist_def)
  show False
  proof (cases ss rule: rev_cases)
    case Nil
    then have "last (s @ [x]) = last l" using e assms(1) by simp
    then show False using assms(2) by simp
  next
    case (snoc ss' y)
    then have "s @ [x] = (ps @ l @ ss') @ [y]" using e by simp
    then have "s = ps @ l @ ss'" by (simp only: append1_eq_conv)
    then show False using assms(3) by (auto simp: sublist_def)
  qed
qed

lemma prefix_split_at:
  assumes "prefix l (a @ x # b)" and "x \<notin> set l"
  shows "prefix l a"
proof -
  from assms(1) have "prefix l a \<or> (\<exists>us. l = a @ us \<and> prefix us (x # b))"
    by (simp only: prefix_append)
  then show ?thesis
  proof
    assume "prefix l a"
    then show ?thesis .
  next
    assume "\<exists>us. l = a @ us \<and> prefix us (x # b)"
    then obtain us where us: "l = a @ us" "prefix us (x # b)" by blast
    have "us = []"
    proof (cases us)
      case Nil
      then show ?thesis .
    next
      case (Cons u w)
      then have "u = x" using us(2) by simp
      then have "x \<in> set l" using us(1) Cons by simp
      then show ?thesis using assms(2) by simp
    qed
    then show ?thesis using us(1) by simp
  qed
qed

lemma sublist_split_at:
  assumes "sublist l (a @ x # b)" and "x \<notin> set l"
  shows "sublist l a \<or> sublist l b"
  using assms(1)
proof (induction a)
  case Nil
  then have "prefix l ([] @ x # b) \<or> sublist l b" by (simp add: sublist_Cons_right)
  then show ?case using prefix_split_at [OF _ assms(2)] prefix_imp_sublist by blast
next
  case (Cons c a)
  then have "prefix l ((c # a) @ x # b) \<or> sublist l (a @ x # b)" by (simp add: sublist_Cons_right)
  then show ?case
  proof
    assume "prefix l ((c # a) @ x # b)"
    then have "prefix l (c # a)" using assms(2) by (rule prefix_split_at)
    then show ?thesis by (simp add: prefix_imp_sublist)
  next
    assume "sublist l (a @ x # b)"
    then have "sublist l a \<or> sublist l b" by (rule Cons.IH)
    then show ?thesis by (auto simp: sublist_Cons_right)
  qed
qed

lemma notin_not_sublist: "x \<in> set l \<Longrightarrow> x \<notin> set s \<Longrightarrow> \<not> sublist l s"
  by (meson set_mono_sublist subsetD)

lemma not_sublist_prepend:
  assumes "l \<noteq> []" and "hd l \<notin> set pre" and "\<not> sublist l s"
  shows "\<not> sublist l (pre @ s)"
  using assms(2) by (induction pre) (simp_all add: assms(3) not_sublist_Cons [OF assms(1)])

lemma not_sublist_append:
  assumes "l \<noteq> []" and "last l \<notin> set post" and "\<not> sublist l s"
  shows "\<not> sublist l (s @ post)"
  using assms(2)
proof (induction post rule: rev_induct)
  case Nil
  then show ?case using assms(3) by simp
next
  case (snoc x xs)
  then have "\<not> sublist l (s @ xs)" by simp
  then have "\<not> sublist l ((s @ xs) @ [x])" using snoc.prems by (intro not_sublist_snoc assms(1)) auto
  then show ?case by simp
qed

lemma not_sublist_context:
  assumes "l \<noteq> []" and "hd l \<notin> set pre" and "last l \<notin> set post" and "\<not> sublist l s"
  shows "\<not> sublist l (pre @ s @ post)"
  by (intro not_sublist_prepend not_sublist_append assms)

lemma dollar_wrap:
  assumes "l \<noteq> []" and "hd l \<noteq> CHR ''$''" and "last l \<noteq> CHR ''$''" and "\<not> sublist l m"
  shows "\<not> sublist l (''$$'' @ m @ ''$$'')" and "\<not> sublist l (''$'' @ m @ ''$'')"
proof -
  have 1: "\<not> sublist l (m @ ''$'')" by (intro not_sublist_snoc assms)
  then have "\<not> sublist l ((m @ ''$'') @ ''$'')" by (intro not_sublist_snoc assms)
  then have 2: "\<not> sublist l (m @ ''$$'')" by simp
  have "\<not> sublist l (CHR ''$'' # CHR ''$'' # m @ ''$$'')" by (intro not_sublist_Cons assms 2)
  then show "\<not> sublist l (''$$'' @ m @ ''$$'')" by simp
  have "\<not> sublist l (CHR ''$'' # m @ ''$'')" by (intro not_sublist_Cons assms 1)
  then show "\<not> sublist l (''$'' @ m @ ''$'')" by simp
qed

lemma no_double_dollar:
  assumes "CHR ''$'' \<notin> set m" and "m \<noteq> []"
  shows "\<not> sublist ''$$'' (''$'' @ m @ ''$'')"
proof
  assume "sublist ''$$'' (''$'' @ m @ ''$'')"
  then have "prefix ''$$'' (CHR ''$'' # m @ ''$'') \<or> sublist ''$$'' (m @ ''$'')"
    by (simp add: sublist_Cons_right)
  then show False
  proof
    assume "prefix ''$$'' (CHR ''$'' # m @ ''$'')"
    then show False using assms by (cases m) simp_all
  next
    assume "sublist ''$$'' (m @ ''$'')"
    then obtain ps ss where e: "m @ ''$'' = ps @ ''$$'' @ ss" by (auto simp: sublist_def)
    show False
    proof (cases ss rule: rev_cases)
      case Nil
      then have "m @ ''$'' = (ps @ ''$'') @ ''$''" using e by simp
      then have "m = ps @ ''$''" by (simp only: append1_eq_conv)
      then show False using assms(1) by simp
    next
      case (snoc ss' y)
      then have "m @ ''$'' = (ps @ ''$$'' @ ss') @ [y]" using e by simp
      then have "m = ps @ ''$$'' @ ss'" by (simp only: append1_eq_conv)
      then show False using assms(1) by simp
    qed
  qed
qed

lemma lastOr_ne: "s \<noteq> [] \<Longrightarrow> lastOr p s = Some (last s)"
  by (induction s arbitrary: p) auto

subsection \<open>Texts without three newlines in a row\<close>

lemma lead_Suc:
  assumes "Suc n \<le> lead s"
  shows "\<exists>t. s = NL # t \<and> n \<le> lead t"
proof (cases s)
  case Nil
  then show ?thesis using assms by simp
next
  case (Cons c t)
  have "c = NL" using assms unfolding Cons lead_Cons by (cases "c = NL") simp_all
  then show ?thesis using assms unfolding Cons lead_Cons by simp
qed

lemma lead3_prefix:
  assumes "3 \<le> lead s"
  shows "prefix [NL, NL, NL] s"
proof -
  from assms have "Suc 2 \<le> lead s" by simp
  then obtain t where t: "s = NL # t" "2 \<le> lead t" using lead_Suc by blast
  from t(2) have "Suc 1 \<le> lead t" by simp
  then obtain u where u: "t = NL # u" "1 \<le> lead u" using lead_Suc by blast
  from u(2) have "Suc 0 \<le> lead u" by simp
  then obtain w where w: "u = NL # w" using lead_Suc by blast
  show ?thesis unfolding t(1) u(1) w by simp
qed

lemma collapse_id:
  "\<not> sublist [NL, NL, NL] s \<Longrightarrow> collapseBlankLines s = s"
proof (induction s)
  case Nil
  then show ?case by (simp add: collapse_Nil)
next
  case (Cons c s)
  from Cons.prems have s: "\<not> sublist [NL, NL, NL] s" by (rule not_sublist_tl)
  have "\<not> 3 \<le> lead (c # s)"
    using Cons.prems lead3_prefix prefix_imp_sublist by blast
  then have "collapseBlankLines (c # s) = c # collapseBlankLines s"
    by (subst collapse_Cons) (simp only: if_False)
  then show ?case using Cons.IH [OF s] by simp
qed

lemma block_no3:
  assumes "\<not> sublist [NL, NL, NL] (NL # m @ [NL])"
  shows "\<not> sublist [NL, NL, NL] (''\<newline>'' @ BS # ''[\<newline>'' @ m @ ''\<newline>'' @ BS # '']\<newline>'')"
proof
  assume "sublist [NL, NL, NL] (''\<newline>'' @ BS # ''[\<newline>'' @ m @ ''\<newline>'' @ BS # '']\<newline>'')"
  then have "sublist [NL, NL, NL] ([NL] @ BS # (CHR ''['' # (NL # m @ [NL]) @ BS # '']\<newline>''))" by simp
  then have "sublist [NL, NL, NL] [NL] \<or> sublist [NL, NL, NL] (CHR ''['' # (NL # m @ [NL]) @ BS # '']\<newline>'')"
    by (rule sublist_split_at) simp
  then have "sublist [NL, NL, NL] ((NL # m @ [NL]) @ BS # '']\<newline>'')"
    by (simp add: sublist_Cons_right)
  then have "sublist [NL, NL, NL] (NL # m @ [NL]) \<or> sublist [NL, NL, NL] '']\<newline>''"
    by (rule sublist_split_at) simp
  then show False using assms by (simp add: sublist_Cons_right)
qed

subsection \<open>A pattern that matches once, between two texts it cannot match in\<close>

lemma scan_skip:
  assumes "\<forall>c\<in>set pre. \<forall>p s. rmatch r p (c # s) [] [] = None"
  shows "scan r p (pre @ s) = map Keep pre @ scan r (lastOr p pre) s"
  using assms by (induction pre arbitrary: p) simp_all

lemma scan_hit:
  assumes "rmatch r p (region @ post) [] [] = Some (g, post)" and "region \<noteq> []"
  shows "scan r p (region @ post) = Hit g # scan r (Some (last region)) post"
proof -
  obtain c s where cs: "region = c # s" using assms(2) by (cases region) auto
  have "take (Suc (length (s @ post)) - length post) (c # s @ post) = c # s" by simp
  then show ?thesis
    using assms(1) unfolding cs by (simp add: lastOr_ne)
qed

lemma scan_one_hit:
  assumes "\<forall>c\<in>set pre. \<forall>p s. rmatch r p (c # s) [] [] = None"
    and "rmatch r (lastOr None pre) (region @ post) [] [] = Some (g, post)"
    and "region \<noteq> []"
    and "l \<in> set (literals r)" and "\<not> sublist l post"
  shows "scan r None (pre @ region @ post) = map Keep pre @ Hit g # map Keep post"
  by (simp only: scan_skip [OF assms(1)] scan_hit [OF assms(2,3)] scan_missing_literal [OF assms(4,5)])

lemma emitSt_Keep_append:
  "emitSt f (map Keep pre @ gs) st = (case emitSt f gs st of (out, st') \<Rightarrow> (pre @ out, st'))"
  by (induction pre) (auto split: prod.splits)

lemma protect_first: "protect b [] = (''__PROTECTED_BLOCK_0__'', [b])"
  by (simp add: protect_def natToString_small digitChar_def)

lemma protect_one_hit:
  assumes "\<forall>c\<in>set pre. \<forall>p s. rmatch r p (c # s) [] [] = None"
    and "rmatch r (lastOr None pre) (region @ post) [] [] = Some (g, post)"
    and "region \<noteq> []"
    and "l \<in> set (literals r)" and "\<not> sublist l post"
  shows "replaceAllSt r (\<lambda>g. protect (f g)) (pre @ region @ post, [])
    = (pre @ ''__PROTECTED_BLOCK_0__'' @ post, [f g])"
  by (simp add: replaceAllSt_def scan_one_hit [OF assms] emitSt_Keep_append emitSt_Keep protect_first)

subsection \<open>A lazy group runs up to the first closing delimiter\<close>

lemma lazy_run:
  assumes "\<forall>x\<in>set m. inClass c x" and "mn \<le> length m"
    and "\<forall>p' t. t \<noteq> [] \<longrightarrow> suffix t m \<longrightarrow> rmatch k p' (t @ rest) os cs = None"
    and "rmatch k (lastOr p m) rest os cs = Some res"
  shows "rmatch (Rep False mn None c # k) p (m @ rest) os cs = Some res"
  using assms
proof (induction m arbitrary: mn p)
  case Nil
  then show ?case by (cases rest) auto
next
  case (Cons x m)
  have fail: "\<forall>p' t. t \<noteq> [] \<longrightarrow> suffix t m \<longrightarrow> rmatch k p' (t @ rest) os cs = None"
    using Cons.prems(3) by (simp add: suffix_Cons)
  have more: "rmatch (Rep False (mn - 1) None c # k) (Some x) (m @ rest) os cs = Some res"
    using Cons.prems fail by (intro Cons.IH) auto
  have here: "rmatch k p (x # m @ rest) os cs = None"
    using Cons.prems(3) [rule_format, of "x # m" p] by simp
  have x: "inClass c x" using Cons.prems(1) by simp
  show ?case
    by (simp only: append_Cons rmatch_Rep_Cons x if_True more here Let_def option.case
        option.map option.distinct if_False if_cancel)
qed

lemma Close_Lit:
  "rmatch [Close, Lit q] p s (t # os) cs =
     (if prefix q s then Some (cs @ [take (length t - length s) t], drop (length q) s) else None)"
  by simp

lemma lazy_group_rest:
  assumes "\<forall>x\<in>set m. inClass c x" and "mn \<le> length m"
    and "\<forall>t. t \<noteq> [] \<longrightarrow> suffix t m \<longrightarrow> \<not> prefix q (t @ q @ rest)"
  shows "rmatch [Open, Rep False mn None c, Close, Lit q] p (m @ q @ rest) [] [] = Some ([m], rest)"
proof -
  have "rmatch (Rep False mn None c # [Close, Lit q]) p (m @ q @ rest) [m @ q @ rest] [] = Some ([m], rest)"
    using assms by (intro lazy_run) (simp_all only: Close_Lit, simp_all)
  then show ?thesis by simp
qed

lemma bracket_late:
  assumes "\<not> sublist (BS # '']'') m"
  shows "\<forall>t. t \<noteq> [] \<longrightarrow> suffix t m \<longrightarrow> \<not> prefix (BS # '']'') (t @ (BS # '']'') @ rest)"
proof (intro allI impI)
  fix t :: string
  assume t: "t \<noteq> []" "suffix t m"
  show "\<not> prefix (BS # '']'') (t @ (BS # '']'') @ rest)"
  proof
    assume p: "prefix (BS # '']'') (t @ (BS # '']'') @ rest)"
    obtain a u where au: "t = a # u" using t(1) by (cases t) auto
    show False
    proof (cases u)
      case Nil
      then show ?thesis using p au by simp
    next
      case (Cons b w)
      then have "prefix (BS # '']'') t" using p au by simp
      then have "sublist (BS # '']'') m"
        using t(2) by (meson prefix_imp_sublist suffix_imp_sublist sublist_order.order.trans)
      then show ?thesis using assms by simp
    qed
  qed
qed

lemma dollar_late:
  assumes "CHR ''$'' \<notin> set m"
  shows "\<forall>t. t \<noteq> [] \<longrightarrow> suffix t m \<longrightarrow> \<not> prefix (CHR ''$'' # q) (t @ (CHR ''$'' # q) @ rest)"
proof (intro allI impI)
  fix t :: string
  assume t: "t \<noteq> []" "suffix t m"
  then obtain a u where au: "t = a # u" by (cases t) auto
  have "a \<in> set m" using t(2) au by (auto simp: suffix_def)
  then have "a \<noteq> CHR ''$''" using assms by auto
  then show "\<not> prefix (CHR ''$'' # q) (t @ (CHR ''$'' # q) @ rest)" unfolding au by simp
qed

subsection \<open>Forward: the protecting passes\<close>

lemma protectBlocks_passes:
  "protectBlocks katex x =
     protectPass katex 5 (protectPass katex 4 (protectPass katex 3
       (protectPass katex 2 (protectPass katex 1 (protectPass katex 0 x)))))"
  by (simp add: protectBlocks_def protectPass_def protectRules_def)

lemma protectPass_skip:
  assumes "i < 6" and "l \<in> set (literals (fst (protectRules None ! i)))" and "\<not> sublist l s"
  shows "protectPass katex i (s, st) = (s, st)"
proof -
  have len: "length (protectRules katex) = 6" by (simp add: protectRules_def)
  have "fst (protectRules katex ! i) = fst (protectRules None ! i)"
    using assms(1) len protectRules_patterns [of katex]
    by (metis length_map nth_map)
  then have "l \<in> set (literals (fst (protectRules katex ! i)))" using assms(2) by simp
  then show ?thesis
    using assms(3) by (cases "protectRules katex ! i") (simp add: protectPass_def replaceAllSt_missing_literal)
qed

lemma dollars_free:
  assumes "\<not> sublist ''$$'' s"
  shows "protectPass katex 3 (s, st) = (s, st)"
  by (rule protectPass_skip [where l = "''$$''"], simp,
      simp add: protectRules_def lazyAny_def, rule assms)

subsection \<open>Forward: the passes after protection on text without commands\<close>

lemma blocked_by_char:
  assumes "list_ex (\<lambda>l. \<exists>x\<in>set l. x \<notin> set s) (literals r)"
  shows "blocked s r"
proof -
  from assms obtain l x where l: "l \<in> set (literals r)" and x: "x \<in> set l" "x \<notin> set s"
    by (auto simp: list_ex_iff)
  have "\<not> str_includes s l"
    unfolding str_includes_sublist using x by (rule notin_not_sublist)
  with l have "\<exists>l\<in>set (literals r). \<not> str_includes s l" by (rule rev_bexI)
  then show ?thesis by (simp only: blocked_def list_ex_iff)
qed

lemma scan_no_match:
  "matchFrom r p s = None \<Longrightarrow> scan r p s = map Keep s"
proof (induction s arbitrary: p)
  case Nil
  then show ?case by (cases "rmatch r p [] [] []") auto
next
  case (Cons c s)
  then show ?case by (cases "rmatch r p (c # s) [] []") auto
qed

lemma replaceAllSt_no_match:
  "matchRx r s = None \<Longrightarrow> replaceAllSt r f (s, st) = (s, st)"
  by (simp add: replaceAllSt_def matchRx_def scan_no_match emitSt_Keep)

lemma protectPass_no_match:
  assumes "matchRx (fst (protectRules katex ! i)) s = None"
  shows "protectPass katex i (s, st) = (s, st)"
  using assms by (cases "protectRules katex ! i") (simp add: protectPass_def replaceAllSt_no_match)

lemma documentBody_no_match:
  "matchRx documentPattern s = None \<Longrightarrow> documentBody s = s"
  by (simp add: documentBody_def)

lemma newline_scan:
  "scan [Lit [x]] p s = map (\<lambda>c. if c = x then Hit [] else Keep c) s"
proof (induction s arbitrary: p)
  case Nil
  then show ?case by simp
next
  case (Cons c s)
  then show ?case by (cases "c = x") simp_all
qed

lemma newline_replace:
  "replaceAll [Lit [x]] (\<lambda>_. [y]) s = map (\<lambda>c. if c = x then y else c) s"
  unfolding replaceAll_def newline_scan by (induction s) simp_all

lemma command_table:
  "list_all (\<lambda>r. list_ex (\<lambda>l. BS \<in> set l) (literals r)) (map fst formatRules @ map fst unescapeRules)"
  by code_simp

lemma command_blocked:
  assumes "BS \<notin> set s"
  shows "list_all (blocked s) (map fst formatRules)" and "list_all (blocked s) (map fst unescapeRules)"
proof -
  have "list_all (blocked s) (map fst formatRules @ map fst unescapeRules)"
  proof (rule list.pred_mono_strong [OF command_table])
    fix r
    assume "list_ex (\<lambda>l. BS \<in> set l) (literals r)"
    then have "list_ex (\<lambda>l. \<exists>x\<in>set l. x \<notin> set s) (literals r)"
      using assms by (auto simp: list_ex_iff)
    then show "blocked s r" by (rule blocked_by_char)
  qed
  then show "list_all (blocked s) (map fst formatRules)" and "list_all (blocked s) (map fst unescapeRules)"
    by simp_all
qed

lemma prose_formatted:
  assumes "BS \<notin> set s"
  shows "unescapeLatex (applyRules spacingRules (applyRules formatRules s))
    = map (\<lambda>c. if c = NL then CHR '' '' else c) s"
proof -
  have 1: "applyRules formatRules s = s" using command_blocked(1) [OF assms] by (rule applyRules_blocked)
  have "replaceAll [Lit [BS, BS]] (\<lambda>_. ''<br/>'') s = s"
    using assms by (intro replaceAll_missing_literal [where l = "[BS, BS]"] notin_not_sublist [of BS]) simp_all
  then have 2: "applyRules spacingRules s = map (\<lambda>c. if c = NL then CHR '' '' else c) s"
    by (simp add: applyRules_def spacingRules_def newline_replace)
  have "BS \<notin> set (map (\<lambda>c. if c = NL then CHR '' '' else c) s)" using assms by auto
  then have 3: "unescapeLatex (map (\<lambda>c. if c = NL then CHR '' '' else c) s)
      = map (\<lambda>c. if c = NL then CHR '' '' else c) s"
    unfolding unescapeLatex_def by (intro applyRules_blocked command_blocked(2))
  show ?thesis by (simp only: 1 2 3)
qed

lemma scan_skip_at:
  assumes "\<forall>a c b. pre = a @ c # b \<longrightarrow> rmatch r (lastOr p a) (c # b @ s) [] [] = None"
  shows "scan r p (pre @ s) = map Keep pre @ scan r (lastOr p pre) s"
  using assms
proof (induction pre arbitrary: p)
  case Nil
  then show ?case by simp
next
  case (Cons c pre)
  have here: "rmatch r p (c # pre @ s) [] [] = None"
    using Cons.prems [rule_format, of "[]" c pre] by simp
  have "\<forall>a c' b. pre = a @ c' # b \<longrightarrow> rmatch r (lastOr (Some c) a) (c' # b @ s) [] [] = None"
  proof (intro allI impI)
    fix a c' b
    assume "pre = a @ c' # b"
    then have "c # pre = (c # a) @ c' # b" by simp
    then have "rmatch r (lastOr p (c # a)) (c' # b @ s) [] [] = None"
      using Cons.prems by blast
    then show "rmatch r (lastOr (Some c) a) (c' # b @ s) [] [] = None" by simp
  qed
  then have "scan r (Some c) (pre @ s) = map Keep pre @ scan r (lastOr (Some c) pre) s"
    by (rule Cons.IH)
  then show ?case using here by simp
qed

lemma stem_no_prefix:
  assumes "t \<noteq> []" and "\<not> sublist ''__PROTECTED_BLOCK'' t"
  shows "\<not> prefix ''__PROTECTED_BLOCK_'' (t @ ''__PROTECTED_BLOCK_0__'' @ X)"
proof
  let ?L = "''__PROTECTED_BLOCK_''"
  assume "prefix ?L (t @ ''__PROTECTED_BLOCK_0__'' @ X)"
  then have "prefix ?L t \<or> (\<exists>us. ?L = t @ us \<and> prefix us (''__PROTECTED_BLOCK_0__'' @ X))"
    by (simp only: prefix_append)
  then show False
  proof
    assume "prefix ?L t"
    then have "sublist ?L t" by (rule prefix_imp_sublist)
    moreover have "sublist ''__PROTECTED_BLOCK'' ?L" by (intro prefix_imp_sublist) simp
    ultimately have "sublist ''__PROTECTED_BLOCK'' t" by (meson sublist_order.order.trans)
    then show False using assms(2) by simp
  next
    assume "\<exists>us. ?L = t @ us \<and> prefix us (''__PROTECTED_BLOCK_0__'' @ X)"
    then obtain us where L: "?L = t @ us" and us: "prefix us (''__PROTECTED_BLOCK_0__'' @ X)" by blast
    obtain c t' where t: "t = c # t'" using assms(1) by (cases t) auto
    have "tl ?L = t' @ us" using L unfolding t by (metis append_Cons list.sel(3))
    then have tl: "''_PROTECTED_BLOCK_'' = t' @ us" by simp
    have whole: "sublist ''__PROTECTED_BLOCK'' (butlast ?L)" by simp
    show False
    proof (cases us)
      case Nil
      then have "t = ?L" using L by simp
      then have "sublist ''__PROTECTED_BLOCK'' t" by (simp add: prefix_imp_sublist)
      then show False using assms(2) by simp
    next
      case 1: (Cons u w)
      show False
      proof (cases w)
        case Nil
        have "?L = t @ [u]" using L unfolding 1 Nil .
        then have "butlast ?L = t" by (simp only: butlast_snoc)
        then have "sublist ''__PROTECTED_BLOCK'' t" using whole by simp
        then show False using assms(2) by simp
      next
        case 2: (Cons u2 w2)
        have "u = CHR ''_''" and "u2 = CHR ''_''" using us unfolding 1 2 by simp_all
        then have "''_PROTECTED_BLOCK_'' = t' @ ''__'' @ w2" using tl 1 2 by simp
        then have occ: "sublist ''__'' ''_PROTECTED_BLOCK_''" unfolding sublist_def by blast
        have "\<not> str_includes ''_PROTECTED_BLOCK_'' ''__''" by code_simp
        then have "\<not> sublist ''__'' ''_PROTECTED_BLOCK_''" unfolding str_includes_sublist .
        then show False using occ by (rule notE)
      qed
    qed
  qed
qed

lemma restore_skip:
  assumes "\<not> sublist ''__PROTECTED_BLOCK'' pre"
  shows "\<forall>a c b. pre = a @ c # b \<longrightarrow>
    rmatch restorePattern (lastOr p a) (c # b @ ''__PROTECTED_BLOCK_0__'' @ X) [] [] = None"
proof (intro allI impI)
  fix a c b
  assume pre: "pre = a @ c # b"
  have "sublist (c # b) pre" unfolding pre by (simp add: sublist_append_leftI)
  then have "\<not> sublist ''__PROTECTED_BLOCK'' (c # b)"
    using assms by (meson sublist_order.order.trans)
  then have "\<not> prefix ''__PROTECTED_BLOCK_'' ((c # b) @ ''__PROTECTED_BLOCK_0__'' @ X)"
    by (intro stem_no_prefix) simp_all
  then show "rmatch restorePattern (lastOr p a) (c # b @ ''__PROTECTED_BLOCK_0__'' @ X) [] [] = None"
    unfolding restorePattern_def by (simp only: rmatch.simps(2) append_Cons if_False)
qed

lemma restore_prose:
  assumes "\<not> sublist ''__PROTECTED_BLOCK'' pre" and "\<not> sublist ''__PROTECTED_BLOCK'' post"
  shows "restoreBlocks [b] (pre @ ''__PROTECTED_BLOCK_0__'' @ post) = pre @ b @ post"
proof -
  have hit: "rmatch restorePattern p (''__PROTECTED_BLOCK_0__'' @ post) [] [] = Some ([''0''], post)" for p
    by (simp add: restorePattern_def isDigit_def)
  have "sublist ''__PROTECTED_BLOCK'' ''__PROTECTED_BLOCK_''" by (intro prefix_imp_sublist) simp
  then have lit: "\<not> sublist ''__PROTECTED_BLOCK_'' post"
    using assms(2) by (meson sublist_order.order.trans)
  have "scan restorePattern None (pre @ ''__PROTECTED_BLOCK_0__'' @ post)
      = map Keep pre @ scan restorePattern (lastOr None pre) (''__PROTECTED_BLOCK_0__'' @ post)"
    using restore_skip [OF assms(1)] by (rule scan_skip_at)
  also have "scan restorePattern (lastOr None pre) (''__PROTECTED_BLOCK_0__'' @ post)
      = Hit [''0''] # scan restorePattern (Some (last ''__PROTECTED_BLOCK_0__'')) post"
    using hit by (rule scan_hit) simp
  also have "scan restorePattern (Some (last ''__PROTECTED_BLOCK_0__'')) post = map Keep post"
    by (rule scan_missing_literal [OF _ lit]) (simp add: restorePattern_def)
  finally have sc: "scan restorePattern None (pre @ ''__PROTECTED_BLOCK_0__'' @ post)
      = map Keep pre @ Hit [''0''] # map Keep post" .
  have 1: "natToString 10 0 = ''0''" by code_simp
  have 2: "readNat 10 ''0'' = 0" by code_simp
  have "restoreBlocks [b] (pre @ ''__PROTECTED_BLOCK_0__'' @ post) = pre @ blockAt [b] (grp [''0''] 0) @ post"
    unfolding restoreBlocks_def replaceAll_def sc by (simp add: emit_Keep_comp)
  also have "blockAt [b] (grp [''0''] 0) = b" unfolding grp_def blockAt_def by (simp add: 1 2)
  finally show ?thesis .
qed

lemma spaced_sublist:
  assumes "CHR '' '' \<notin> set l" and "\<not> sublist l s"
  shows "\<not> sublist l (map (\<lambda>c. if c = NL then CHR '' '' else c) s)"
proof
  let ?f = "\<lambda>c. if c = NL then CHR '' '' else c"
  assume "sublist l (map ?f s)"
  then obtain ps ss where "map ?f s = ps @ (l @ ss)" by (auto simp: sublist_def)
  then have "\<exists>us vs. s = us @ vs \<and> ps = map ?f us \<and> l @ ss = map ?f vs"
    by (simp only: map_eq_append_conv)
  then obtain ps' r where s: "s = ps' @ r" and "l @ ss = map ?f r" by blast
  then have "\<exists>us vs. r = us @ vs \<and> l = map ?f us \<and> ss = map ?f vs"
    by (simp only: append_eq_map_conv)
  then obtain l' ss' where r: "r = l' @ ss'" and l': "map ?f l' = l" by metis
  have "\<forall>c\<in>set l'. ?f c \<noteq> CHR '' ''" using l' assms(1) by auto
  then have "\<forall>c\<in>set l'. ?f c = c" by (auto split: if_splits)
  then have "map ?f l' = l'" by (simp add: map_idI)
  then have "l' = l" using l' by simp
  then have "sublist l s" unfolding s r by (auto simp: sublist_def)
  then show False using assms(2) by simp
qed

lemma dollars_late:
  assumes "\<not> sublist ''$$'' (m @ ''$'')"
  shows "\<forall>t. t \<noteq> [] \<longrightarrow> suffix t m \<longrightarrow> \<not> prefix ''$$'' (t @ ''$$'' @ rest)"
proof (intro allI impI)
  fix t :: string
  assume t: "t \<noteq> []" "suffix t m"
  obtain a u where au: "t = a # u" using t(1) by (cases t) auto
  from t(2) obtain ps where m: "m = ps @ t" by (auto simp: suffix_def)
  show "\<not> prefix ''$$'' (t @ ''$$'' @ rest)"
  proof
    assume p: "prefix ''$$'' (t @ ''$$'' @ rest)"
    show False
    proof (cases u)
      case Nil
      then have "a = CHR ''$''" using p au by simp
      then have "m @ ''$'' = ps @ ''$$'' @ []" using m au Nil by simp
      then have "sublist ''$$'' (m @ ''$'')" unfolding sublist_def by blast
      then show False using assms by simp
    next
      case (Cons b w)
      have "prefix ''$$'' (a # b # w @ ''$$'' @ rest)" using p unfolding au Cons append_Cons .
      then have "a = CHR ''$'' \<and> b = CHR ''$''" by (metis Cons_prefix_Cons)
      then have "m @ ''$'' = ps @ ''$$'' @ (w @ ''$'')" using m au Cons by simp
      then have "sublist ''$$'' (m @ ''$'')" unfolding sublist_def by blast
      then show False using assms by simp
    qed
  qed
qed

lemma bracket_fires_prose:
  assumes "\<not> sublist (BS # '']'') m" and "BS \<notin> set pre" and "BS \<notin> set post"
  shows "protectPass katex 2 (pre @ (BS # ''['' @ m @ BS # '']'') @ post, [])
    = (pre @ ''__PROTECTED_BLOCK_0__'' @ post, [mathBlock katex m])"
proof -
  let ?r = "[Lit (BS # ''['')] @ lazyAny @ [Lit (BS # '']'')]"
  have skip: "\<forall>c\<in>set pre. \<forall>p s. rmatch ?r p (c # s) [] [] = None"
    using assms(2) by auto
  have "rmatch [Open, Rep False 0 None AnyChar, Close, Lit (BS # '']'')] p (m @ (BS # '']'') @ post) [] []
      = Some ([m], post)" for p
    using bracket_late [OF assms(1)] by (intro lazy_group_rest) simp_all
  then have hit: "rmatch ?r (lastOr None pre) ((BS # ''['' @ m @ BS # '']'') @ post) [] [] = Some ([m], post)"
    by (simp add: lazyAny_def)
  have lit: "\<not> sublist (BS # ''['') post"
    using assms(3) by (intro notin_not_sublist [of BS]) simp_all
  have "replaceAllSt ?r (\<lambda>g. protect (mathBlock katex (grp g 0)))
          (pre @ (BS # ''['' @ m @ BS # '']'') @ post, [])
        = (pre @ ''__PROTECTED_BLOCK_0__'' @ post, [mathBlock katex (grp [m] 0)])"
    using skip hit _ _ lit by (rule protect_one_hit) (simp_all add: lazyAny_def)
  then show ?thesis by (simp add: protectPass_def protectRules_def grp_def)
qed

lemma dollars_fires_prose:
  assumes "\<not> sublist ''$$'' (m @ ''$'')" and "CHR ''$'' \<notin> set pre" and "CHR ''$'' \<notin> set post"
  shows "protectPass katex 3 (pre @ (''$$'' @ m @ ''$$'') @ post, [])
    = (pre @ ''__PROTECTED_BLOCK_0__'' @ post, [mathBlock katex m])"
proof -
  let ?r = "[Lit ''$$''] @ lazyAny @ [Lit ''$$'']"
  have skip: "\<forall>c\<in>set pre. \<forall>p s. rmatch ?r p (c # s) [] [] = None"
    using assms(2) by auto
  have "rmatch [Open, Rep False 0 None AnyChar, Close, Lit ''$$''] p (m @ ''$$'' @ post) [] []
      = Some ([m], post)" for p
    using dollars_late [OF assms(1), of post] by (intro lazy_group_rest) simp_all
  then have hit: "rmatch ?r (lastOr None pre) ((''$$'' @ m @ ''$$'') @ post) [] [] = Some ([m], post)"
    by (simp add: lazyAny_def)
  have lit: "\<not> sublist ''$$'' post"
    using assms(3) by (intro notin_not_sublist [of "CHR ''$''"]) simp_all
  have "replaceAllSt ?r (\<lambda>g. protect (mathBlock katex (grp g 0)))
          (pre @ (''$$'' @ m @ ''$$'') @ post, [])
        = (pre @ ''__PROTECTED_BLOCK_0__'' @ post, [mathBlock katex (grp [m] 0)])"
    using skip hit _ _ lit by (rule protect_one_hit) (simp_all add: lazyAny_def)
  then show ?thesis by (simp add: protectPass_def protectRules_def grp_def)
qed

lemma inline_fires_prose:
  assumes "CHR ''$'' \<notin> set m" and "m \<noteq> []" and "CHR ''$'' \<notin> set pre" and "CHR ''$'' \<notin> set post"
    and "BS \<notin> set pre"
  shows "protectPass katex 4 (pre @ (''$'' @ m @ ''$'') @ post, [])
    = (pre @ ''__PROTECTED_BLOCK_0__'' @ post, [mathInline katex m])"
proof -
  let ?r = "[NotAfter BS, Lit ''$'', Open, Rep False 1 None (Not CHR ''$''), Close, Lit ''$'']"
  have skip: "\<forall>c\<in>set pre. \<forall>p s. rmatch ?r p (c # s) [] [] = None"
    using assms(3) by auto
  have cls: "\<forall>x\<in>set m. inClass (Not CHR ''$'') x" using assms(1) by auto
  have len: "1 \<le> length m" using assms(2) by (cases m) simp_all
  have "rmatch [Open, Rep False 1 None (Not CHR ''$''), Close, Lit ''$''] p (m @ ''$'' @ post) [] []
      = Some ([m], post)" for p
    using cls len dollar_late [OF assms(1), of "[]" post] by (rule lazy_group_rest)
  moreover have "lastOr None pre \<noteq> Some BS"
  proof (cases "pre = []")
    case True
    then show ?thesis by simp
  next
    case False
    then have "last pre \<in> set pre" by simp
    then have "last pre \<noteq> BS" using assms(5) by metis
    then show ?thesis by (simp only: lastOr_ne [OF False] option.inject not_False_eq_True)
  qed
  ultimately have hit: "rmatch ?r (lastOr None pre) ((''$'' @ m @ ''$'') @ post) [] [] = Some ([m], post)"
    by simp
  have lit: "\<not> sublist ''$'' post"
    using assms(4) by (intro notin_not_sublist [of "CHR ''$''"]) simp_all
  have "replaceAllSt ?r (\<lambda>g. protect (mathInline katex (grp g 0)))
          (pre @ (''$'' @ m @ ''$'') @ post, [])
        = (pre @ ''__PROTECTED_BLOCK_0__'' @ post, [mathInline katex (grp [m] 0)])"
    using skip hit _ _ lit by (rule protect_one_hit) simp_all
  then show ?thesis by (simp add: protectPass_def protectRules_def grp_def)
qed

lemma token_prose_passes:
  assumes "BS \<notin> set pre" and "BS \<notin> set post" and "CHR ''$'' \<notin> set pre" and "CHR ''$'' \<notin> set post"
  shows "protectPass katex 3 (pre @ ''__PROTECTED_BLOCK_0__'' @ post, st) = (pre @ ''__PROTECTED_BLOCK_0__'' @ post, st)"
    and "protectPass katex 4 (pre @ ''__PROTECTED_BLOCK_0__'' @ post, st) = (pre @ ''__PROTECTED_BLOCK_0__'' @ post, st)"
    and "protectPass katex 5 (pre @ ''__PROTECTED_BLOCK_0__'' @ post, st) = (pre @ ''__PROTECTED_BLOCK_0__'' @ post, st)"
proof -
  let ?s = "pre @ ''__PROTECTED_BLOCK_0__'' @ post"
  have d: "CHR ''$'' \<notin> set ?s" using assms(3,4) by simp
  have b: "BS \<notin> set ?s" using assms(1,2) by simp
  have d1: "\<not> sublist ''$$'' ?s" using d by (intro notin_not_sublist [of "CHR ''$''"]) simp_all
  have d2: "\<not> sublist ''$'' ?s" using d by (intro notin_not_sublist [of "CHR ''$''"]) simp_all
  have t: "\<not> sublist (BS # ''texttt{'') ?s" using b by (intro notin_not_sublist [of BS]) simp_all
  show "protectPass katex 3 (?s, st) = (?s, st)"
    by (rule protectPass_skip [where l = "''$$''"], simp, simp add: protectRules_def lazyAny_def, rule d1)
  show "protectPass katex 4 (?s, st) = (?s, st)"
    by (rule protectPass_skip [where l = "''$''"], simp, simp add: protectRules_def lazyAny_def, rule d2)
  show "protectPass katex 5 (?s, st) = (?s, st)"
    by (rule protectPass_skip [where l = "BS # ''texttt{''"], simp, simp add: protectRules_def lazyAny_def, rule t)
qed

lemma forward_prose:
  assumes "matchRx documentPattern s = None"
    and "protectBlocks katex (s, []) = (pre @ ''__PROTECTED_BLOCK_0__'' @ post, [b])"
    and "BS \<notin> set pre" and "BS \<notin> set post"
    and "\<not> sublist ''__PROTECTED_BLOCK'' pre" and "\<not> sublist ''__PROTECTED_BLOCK'' post"
    and "s \<noteq> []"
  shows "latexToHtml katex s
    = map (\<lambda>c. if c = NL then CHR '' '' else c) pre @ b @ map (\<lambda>c. if c = NL then CHR '' '' else c) post"
proof -
  let ?f = "\<lambda>c. if c = NL then CHR '' '' else c"
  have "BS \<notin> set (pre @ ''__PROTECTED_BLOCK_0__'' @ post)" using assms(3,4) by simp
  then have "unescapeLatex (applyRules spacingRules (applyRules formatRules (pre @ ''__PROTECTED_BLOCK_0__'' @ post)))
      = map ?f (pre @ ''__PROTECTED_BLOCK_0__'' @ post)"
    by (rule prose_formatted)
  also have "\<dots> = map ?f pre @ ''__PROTECTED_BLOCK_0__'' @ map ?f post" by simp
  finally have fmt: "unescapeLatex (applyRules spacingRules (applyRules formatRules (pre @ ''__PROTECTED_BLOCK_0__'' @ post)))
      = map ?f pre @ ''__PROTECTED_BLOCK_0__'' @ map ?f post" .
  have s1: "\<not> sublist ''__PROTECTED_BLOCK'' (map ?f pre)"
    by (rule spaced_sublist [OF _ assms(5)]) simp
  have s2: "\<not> sublist ''__PROTECTED_BLOCK'' (map ?f post)"
    by (rule spaced_sublist [OF _ assms(6)]) simp
  have "latexToHtml katex s
      = restoreBlocks [b] (unescapeLatex (applyRules spacingRules (applyRules formatRules
          (pre @ ''__PROTECTED_BLOCK_0__'' @ post))))"
    unfolding latexToHtml_def
    by (simp only: documentBody_no_match [OF assms(1)] assms(2,7) if_False prod.case)
  then show ?thesis by (simp only: fmt restore_prose [OF s1 s2])
qed

subsection \<open>Backward: collapsing and trimming around the emitted math\<close>

lemma collapse_before:
  assumes "c \<noteq> NL"
  shows "collapseBlankLines (a @ c # s) = collapseBlankLines a @ collapseBlankLines (c # s)"
proof (induction a rule: length_induct)
  case (1 a)
  show ?case
  proof (cases "a = []")
    case True
    then show ?thesis by (simp add: collapse_Nil)
  next
    case False
    have ne: "a @ c # s \<noteq> []" by simp
    have tw: "takeWhile (\<lambda>x. x = NL) (a @ c # s) = takeWhile (\<lambda>x. x = NL) a"
      using assms by (rule takeWhile_tail)
    have dw: "dropWhile (\<lambda>x. x = NL) (a @ c # s) = dropWhile (\<lambda>x. x = NL) a @ c # s"
      using assms by (rule dropWhile_append3)
    have hd_tl: "hd (a @ c # s) = hd a" "tl (a @ c # s) = tl a @ c # s" using False by simp_all
    show ?thesis
    proof (cases "3 \<le> lead a")
      case True
      let ?d = "dropWhile (\<lambda>x. x = NL) a"
      have "length a = lead a + length ?d" by (metis length_append takeWhile_dropWhile_id)
      then have "length ?d < length a" using True by linarith
      then have ih: "collapseBlankLines (?d @ c # s) = collapseBlankLines ?d @ collapseBlankLines (c # s)"
        using 1 by blast
      have "collapseBlankLines (a @ c # s) = [NL, NL] @ collapseBlankLines (?d @ c # s)"
        using collapse_ne [OF ne] True by (simp only: tw dw if_True)
      moreover have "collapseBlankLines a = [NL, NL] @ collapseBlankLines ?d"
        using collapse_ne [OF False] True by (simp only: if_True)
      ultimately show ?thesis using ih by simp
    next
      case no: False
      have "length (tl a) < length a" using False by (cases a) simp_all
      then have ih: "collapseBlankLines (tl a @ c # s) = collapseBlankLines (tl a) @ collapseBlankLines (c # s)"
        using 1 by blast
      have "collapseBlankLines (a @ c # s) = hd a # collapseBlankLines (tl a @ c # s)"
        using collapse_ne [OF ne] no by (simp only: tw hd_tl if_False)
      moreover have "collapseBlankLines a = hd a # collapseBlankLines (tl a)"
        using collapse_ne [OF False] no by (simp only: if_False)
      ultimately show ?thesis using ih by simp
    qed
  qed
qed

lemma collapse_mid:
  assumes "y \<noteq> []" and "hd y \<noteq> NL" and "last y \<noteq> NL" and "\<not> sublist [NL, NL, NL] y"
  shows "collapseBlankLines (a @ y @ b) = collapseBlankLines a @ y @ collapseBlankLines b"
proof -
  obtain c t where ct: "y = c # t" using assms(1) by (cases y) auto
  obtain u d where ud: "y = u @ [d]" using assms(1) by (cases y rule: rev_cases) auto
  have c: "c \<noteq> NL" using assms(2) ct by simp
  have d: "d \<noteq> NL" using assms(3) ud by simp
  have one: "collapseBlankLines (d # z) = d # collapseBlankLines z" for z
    using d by (subst collapse_Cons) simp
  have "collapseBlankLines (u @ d # z) = collapseBlankLines u @ d # collapseBlankLines z" for z
    using collapse_before [OF d, of u z] one by simp
  then have tail: "collapseBlankLines (y @ z) = collapseBlankLines u @ d # collapseBlankLines z" for z
    unfolding ud by simp
  have "collapseBlankLines y = collapseBlankLines u @ [d]"
    using tail [of "[]"] by (simp add: collapse_Nil)
  moreover have "collapseBlankLines y = y" using assms(4) by (rule collapse_id)
  ultimately have "collapseBlankLines (y @ b) = y @ collapseBlankLines b"
    using tail [of b] by simp
  moreover have "collapseBlankLines (a @ c # (t @ b)) = collapseBlankLines a @ collapseBlankLines (c # (t @ b))"
    using c by (rule collapse_before)
  ultimately show ?thesis unfolding ct by simp
qed

lemma trim_mid:
  assumes "y \<noteq> []" and "\<not> isSpace (hd y)" and "\<not> isSpace (last y)"
  shows "trim (a @ y @ b) = dropWhile isSpace a @ y @ rev (dropWhile isSpace (rev b))"
proof -
  obtain c t where ct: "y = c # t" using assms(1) by (cases y) auto
  obtain u d where ud: "y = u @ [d]" using assms(1) by (cases y rule: rev_cases) auto
  have c: "\<not> isSpace c" using assms(2) ct by simp
  have d: "\<not> isSpace d" using assms(3) ud by simp
  have "dropWhile isSpace (a @ c # (t @ b)) = dropWhile isSpace a @ c # (t @ b)"
    using c by (rule dropWhile_append3)
  then have 1: "dropWhile isSpace (a @ y @ b) = dropWhile isSpace a @ y @ b" unfolding ct by simp
  have "rev (dropWhile isSpace a @ y @ b) = rev b @ d # (rev u @ rev (dropWhile isSpace a))"
    unfolding ud by simp
  moreover have "dropWhile isSpace (rev b @ d # (rev u @ rev (dropWhile isSpace a)))
      = dropWhile isSpace (rev b) @ d # (rev u @ rev (dropWhile isSpace a))"
    using d by (rule dropWhile_append3)
  ultimately have "rev (dropWhile isSpace (rev (dropWhile isSpace a @ y @ b)))
      = dropWhile isSpace a @ y @ rev (dropWhile isSpace (rev b))"
    unfolding ud by simp
  then show ?thesis by (simp only: trim_def 1)
qed

lemma joinResults_append:
  "joinResults (xs @ ys) =
     (case joinResults xs of Inl e \<Rightarrow> Inl e
      | Inr a \<Rightarrow> (case joinResults ys of Inl e \<Rightarrow> Inl e | Inr b \<Rightarrow> Inr (a @ b)))"
proof (induction xs)
  case Nil
  then show ?case by (simp split: sum.splits)
next
  case (Cons x xs)
  then show ?case by (cases x) (simp_all split: sum.splits)
qed

lemma backward_siblings:
  assumes "html \<noteq> []" and "parse html = before @ [n] @ after"
    and "joinResults (map traverse before) = Inr A" and "traverse n = Inr x"
    and "joinResults (map traverse after) = Inr B"
  shows "htmlToLatex parse html = Inr (trim (collapseBlankLines (A @ x @ B)))"
  using assms by (simp add: htmlToLatex_def normalize_def joinResults_append)

subsection \<open>Forward: a math region between two texts without commands\<close>

lemma early_passes:
  assumes "matchRx ([Lit (BS # ''begin{verbatim}'')] @ lazyAny @ [Lit (BS # ''end{verbatim}'')]) s = None"
    and "matchRx ([Lit (BS # ''begin{itemize}''), Rep True 0 None Space, Lit (BS # ''item[$'' @ BS # ''square$]'')]
          @ lazyAny @ [Lit (BS # ''end{itemize}'')]) s = None"
  shows "protectPass katex 1 (protectPass katex 0 (s, st)) = (s, st)"
proof -
  have 0: "protectPass katex 0 (s, st) = (s, st)"
    by (rule protectPass_no_match) (use assms(1) in \<open>simp add: protectRules_def\<close>)
  have 1: "protectPass katex 1 (s, st) = (s, st)"
    by (rule protectPass_no_match) (use assms(2) in \<open>simp add: protectRules_def\<close>)
  show ?thesis by (simp only: 0 1)
qed

lemma bracket_pass_idle:
  assumes "matchRx ([Lit (BS # ''['')] @ lazyAny @ [Lit (BS # '']'')]) s = None"
  shows "protectPass katex 2 (s, st) = (s, st)"
  by (rule protectPass_no_match) (use assms in \<open>simp add: protectRules_def\<close>)

lemma forward_bracket_prose:
  assumes "matchRx documentPattern doc = None"
    and "matchRx ([Lit (BS # ''begin{verbatim}'')] @ lazyAny @ [Lit (BS # ''end{verbatim}'')]) doc = None"
    and "matchRx ([Lit (BS # ''begin{itemize}''), Rep True 0 None Space, Lit (BS # ''item[$'' @ BS # ''square$]'')]
          @ lazyAny @ [Lit (BS # ''end{itemize}'')]) doc = None"
    and "BS \<notin> set (pre @ post)" and "CHR ''$'' \<notin> set (pre @ post)"
    and "\<not> sublist ''__PROTECTED_BLOCK'' pre" and "\<not> sublist ''__PROTECTED_BLOCK'' post"
    and "doc = pre @ BS # ''['' @ m @ BS # '']'' @ post" and "\<not> sublist (BS # '']'') m"
  shows "latexToHtml katex doc
    = map (\<lambda>c. if c = NL then CHR '' '' else c) pre @ mathBlock katex m
        @ map (\<lambda>c. if c = NL then CHR '' '' else c) post"
proof -
  have b: "BS \<notin> set pre" "BS \<notin> set post" and d: "CHR ''$'' \<notin> set pre" "CHR ''$'' \<notin> set post"
    using assms(4,5) by simp_all
  have doc: "doc = pre @ (BS # ''['' @ m @ BS # '']'') @ post" using assms(8) by simp
  have "protectBlocks katex (doc, []) = (pre @ ''__PROTECTED_BLOCK_0__'' @ post, [mathBlock katex m])"
    unfolding protectBlocks_passes early_passes [OF assms(2,3)]
    unfolding doc bracket_fires_prose [OF assms(9) b] token_prose_passes [OF b d] ..
  with assms(1) show ?thesis using b assms(6,7) by (rule forward_prose) (simp add: doc)
qed

lemma forward_dollars_prose:
  assumes "matchRx documentPattern doc = None"
    and "matchRx ([Lit (BS # ''begin{verbatim}'')] @ lazyAny @ [Lit (BS # ''end{verbatim}'')]) doc = None"
    and "matchRx ([Lit (BS # ''begin{itemize}''), Rep True 0 None Space, Lit (BS # ''item[$'' @ BS # ''square$]'')]
          @ lazyAny @ [Lit (BS # ''end{itemize}'')]) doc = None"
    and "BS \<notin> set (pre @ post)" and "CHR ''$'' \<notin> set (pre @ post)"
    and "\<not> sublist ''__PROTECTED_BLOCK'' pre" and "\<not> sublist ''__PROTECTED_BLOCK'' post"
    and "doc = pre @ ''$$'' @ m @ ''$$'' @ post" and "\<not> sublist ''$$'' (m @ ''$'')"
    and "matchRx ([Lit (BS # ''['')] @ lazyAny @ [Lit (BS # '']'')]) doc = None"
  shows "latexToHtml katex doc
    = map (\<lambda>c. if c = NL then CHR '' '' else c) pre @ mathBlock katex m
        @ map (\<lambda>c. if c = NL then CHR '' '' else c) post"
proof -
  have b: "BS \<notin> set pre" "BS \<notin> set post" and d: "CHR ''$'' \<notin> set pre" "CHR ''$'' \<notin> set post"
    using assms(4,5) by simp_all
  have doc: "doc = pre @ (''$$'' @ m @ ''$$'') @ post" using assms(8) by simp
  have "protectBlocks katex (doc, []) = (pre @ ''__PROTECTED_BLOCK_0__'' @ post, [mathBlock katex m])"
    unfolding protectBlocks_passes early_passes [OF assms(2,3)] bracket_pass_idle [OF assms(10)]
    unfolding doc dollars_fires_prose [OF assms(9) d] token_prose_passes(2,3) [OF b d] ..
  with assms(1) show ?thesis using b assms(6,7) by (rule forward_prose) (simp add: doc)
qed

lemma forward_inline_prose:
  assumes "matchRx documentPattern doc = None"
    and "matchRx ([Lit (BS # ''begin{verbatim}'')] @ lazyAny @ [Lit (BS # ''end{verbatim}'')]) doc = None"
    and "matchRx ([Lit (BS # ''begin{itemize}''), Rep True 0 None Space, Lit (BS # ''item[$'' @ BS # ''square$]'')]
          @ lazyAny @ [Lit (BS # ''end{itemize}'')]) doc = None"
    and "BS \<notin> set (pre @ post)" and "CHR ''$'' \<notin> set (pre @ post)"
    and "\<not> sublist ''__PROTECTED_BLOCK'' pre" and "\<not> sublist ''__PROTECTED_BLOCK'' post"
    and "doc = pre @ ''$'' @ m @ ''$'' @ post" and "m \<noteq> []" and "CHR ''$'' \<notin> set m"
    and "matchRx ([Lit (BS # ''['')] @ lazyAny @ [Lit (BS # '']'')]) doc = None"
  shows "latexToHtml katex doc
    = map (\<lambda>c. if c = NL then CHR '' '' else c) pre @ mathInline katex m
        @ map (\<lambda>c. if c = NL then CHR '' '' else c) post"
proof -
  have b: "BS \<notin> set pre" "BS \<notin> set post" and d: "CHR ''$'' \<notin> set pre" "CHR ''$'' \<notin> set post"
    using assms(4,5) by simp_all
  have doc: "doc = pre @ (''$'' @ m @ ''$'') @ post" using assms(8) by simp
  have nd: "\<not> sublist ''$$'' doc"
    unfolding doc by (rule not_sublist_context [OF _ _ _ no_double_dollar [OF assms(10,9)]]) (simp_all add: d)
  have "protectBlocks katex (doc, []) = (pre @ ''__PROTECTED_BLOCK_0__'' @ post, [mathInline katex m])"
    unfolding protectBlocks_passes early_passes [OF assms(2,3)] bracket_pass_idle [OF assms(11)]
      dollars_free [OF nd]
    unfolding doc inline_fires_prose [OF assms(10,9) d b(1)] token_prose_passes(3) [OF b d] ..
  with assms(1) show ?thesis using b assms(6,7) by (rule forward_prose) (simp add: doc)
qed

subsection \<open>Backward: a math node among its siblings\<close>

lemma display_no3:
  assumes "\<not> sublist [NL, NL, NL] (NL # m @ [NL])"
  shows "\<not> sublist [NL, NL, NL] (BS # ''[\<newline>'' @ m @ ''\<newline>'' @ BS # '']'')"
proof -
  have "sublist (BS # ''[\<newline>'' @ m @ ''\<newline>'' @ BS # '']'')
      ([NL] @ (BS # ''[\<newline>'' @ m @ ''\<newline>'' @ BS # '']'') @ [NL])"
    by (rule sublist_appendI)
  then have "sublist (BS # ''[\<newline>'' @ m @ ''\<newline>'' @ BS # '']'')
      (''\<newline>'' @ BS # ''[\<newline>'' @ m @ ''\<newline>'' @ BS # '']\<newline>'')" by simp
  then show ?thesis using block_no3 [OF assms] by (meson sublist_order.order.trans)
qed

lemma backward_display:
  assumes "html \<noteq> []" and "parse html = before @ [Element tag attrs st v cs] @ after"
    and "joinResults (map traverse before) = Inr A" and "joinResults (map traverse after) = Inr B"
    and "classListContains (Element tag attrs st v cs) ''math-block''"
    and "getAttribute (Element tag attrs st v cs) ''data-latex'' = Some (encodeURIComponent m)"
    and "querySelector (isTag ''textarea'') (Element tag attrs st v cs) = None"
    and "\<not> sublist [NL, NL, NL] (NL # m @ [NL])"
  shows "htmlToLatex parse html
    = Inr (dropWhile isSpace (collapseBlankLines (A @ ''\<newline>''))
        @ BS # ''[\<newline>'' @ m @ ''\<newline>'' @ BS # '']''
        @ rev (dropWhile isSpace (rev (collapseBlankLines (''\<newline>'' @ B)))))"
proof -
  let ?y = "BS # ''[\<newline>'' @ m @ ''\<newline>'' @ BS # '']''"
  have t: "traverse (Element tag attrs st v cs)
      = Inr (''\<newline>'' @ BS # ''[\<newline>'' @ m @ ''\<newline>'' @ BS # '']\<newline>'')"
    using refl assms(5-7) by (rule traverse_math_block)
  have "htmlToLatex parse html
      = Inr (trim (collapseBlankLines (A @ (''\<newline>'' @ BS # ''[\<newline>'' @ m @ ''\<newline>'' @ BS # '']\<newline>'') @ B)))"
    using assms(1,2,3) t assms(4) by (rule backward_siblings)
  also have "A @ (''\<newline>'' @ BS # ''[\<newline>'' @ m @ ''\<newline>'' @ BS # '']\<newline>'') @ B
      = (A @ ''\<newline>'') @ ?y @ (''\<newline>'' @ B)" by simp
  also have "collapseBlankLines ((A @ ''\<newline>'') @ ?y @ (''\<newline>'' @ B))
      = collapseBlankLines (A @ ''\<newline>'') @ ?y @ collapseBlankLines (''\<newline>'' @ B)"
    by (rule collapse_mid [OF _ _ _ display_no3 [OF assms(8)]]) simp_all
  also have "trim (collapseBlankLines (A @ ''\<newline>'') @ ?y @ collapseBlankLines (''\<newline>'' @ B))
      = dropWhile isSpace (collapseBlankLines (A @ ''\<newline>'')) @ ?y
          @ rev (dropWhile isSpace (rev (collapseBlankLines (''\<newline>'' @ B))))"
    by (rule trim_mid) (simp_all add: isSpace_def)
  finally show ?thesis by simp
qed

lemma backward_inline_general:
  assumes "html \<noteq> []" and "parse html = before @ [Element tag attrs st v cs] @ after"
    and "joinResults (map traverse before) = Inr A" and "joinResults (map traverse after) = Inr B"
    and "\<not> classListContains (Element tag attrs st v cs) ''math-block''"
    and "classListContains (Element tag attrs st v cs) ''math-inline''"
    and "getAttribute (Element tag attrs st v cs) ''data-latex'' = Some (encodeURIComponent m)"
    and "querySelector (isTag ''input'') (Element tag attrs st v cs) = None"
    and "\<not> sublist [NL, NL, NL] m"
  shows "htmlToLatex parse html
    = Inr (dropWhile isSpace (collapseBlankLines A) @ ''$'' @ m @ ''$''
        @ rev (dropWhile isSpace (rev (collapseBlankLines B))))"
proof -
  let ?y = "''$'' @ m @ ''$''"
  have t: "traverse (Element tag attrs st v cs) = Inr ?y"
    using refl assms(5-8) by (rule traverse_math_inline)
  have n3: "\<not> sublist [NL, NL, NL] ?y"
    by (rule dollar_wrap(2) [OF _ _ _ assms(9)]) simp_all
  have "htmlToLatex parse html = Inr (trim (collapseBlankLines (A @ ?y @ B)))"
    using assms(1,2,3) t assms(4) by (rule backward_siblings)
  also have "collapseBlankLines (A @ ?y @ B) = collapseBlankLines A @ ?y @ collapseBlankLines B"
    by (rule collapse_mid [OF _ _ _ n3]) simp_all
  also have "trim (collapseBlankLines A @ ?y @ collapseBlankLines B)
      = dropWhile isSpace (collapseBlankLines A) @ ?y @ rev (dropWhile isSpace (rev (collapseBlankLines B)))"
    by (rule trim_mid) (simp_all add: isSpace_def)
  finally show ?thesis by simp
qed

subsection \<open>The round trip\<close>




end
